theory Spec2Isabelle
  imports Main "HOL-Library.Sublist"
begin

section \<open>The duplicate detector of \<open>notebooks/load_format_images.ipynb\<close>\<close>

text \<open>
  The notebook's \<open>remove_duplicate_images\<close> walks the folders \<open>no\<close> and \<open>yes\<close>
  below \<open>../data/brain_tumor_dataset/raw_images\<close>, hashes what \<open>cv2.imread\<close> returns
  for every regular file, remembers the first enumeration index seen for each hash in the
  dictionary \<open>hash_keys\<close>, appends a pair \<open>(i, "<index>: <path>")\<close> to the list \<open>dupes\<close>
  for every later file with a known hash, prints the length of \<open>dupes\<close> and finally calls
  \<open>os.remove\<close> on the second piece of each display string split at \<open>": "\<close>.

  The function works on the file system, so the model passes the file system explicitly.
  The library calls it makes are modelled by what they do on that state:
  \<^item> \<open>Path.glob("*")\<close> lists the entries of a directory in the directory's own order and
    yields nothing when the receiver is not an existing directory;
  \<^item> \<open>Path.is_file()\<close> is true for an existing regular file only;
  \<^item> \<open>cv2.imread\<close> has three outcomes: the decoded pixel array; \<open>None\<close>, for a file it
    cannot read as an image; or an exception \<open>cv2.error\<close>, for a file it refuses (a header
    that announces more pixels than the library accepts). Which of the three a file's
    bytes give is a parameter of the model;
  \<^item> \<open>hashlib.md5(np.array(x, dtype=object)).hexdigest()\<close> is a function of \<open>x\<close> and a
    parameter of the model (the object array of an 8-bit image holds the interpreter's
    shared small integers, the one made from \<open>None\<close> holds \<open>None\<close>; hashing either
    returns a digest and does not raise);
  \<^item> \<open>os.remove\<close> unlinks a regular file and raises an \<open>OSError\<close> carrying the path
    otherwise.
\<close>

subsection \<open>Paths, files and the file system\<close>

type_synonym path = string
type_synonym bytes = "nat list"

text \<open>A regular file holds its raw bytes; a directory holds its entry names in listing order.\<close>

datatype node = File bytes | Dir "string list"

text \<open>
  \<open>nodes\<close> maps a path to what is stored there; \<open>protected\<close> holds the paths that the
  process is not permitted to unlink.
\<close>

record filesystem =
  nodes :: "path \<rightharpoonup> node"
  protected :: "path set"

datatype py_error =
    FileNotFoundError path
  | IsADirectoryError path
  | PermissionError path
  | NotADirectoryError path
  | IndexError
  | Cv2Error

text \<open>The path named by an \<open>OSError\<close> (its \<open>filename\<close> attribute).\<close>

fun error_filename :: "py_error \<Rightarrow> path option" where
  "error_filename (FileNotFoundError p) = Some p"
| "error_filename (IsADirectoryError p) = Some p"
| "error_filename (PermissionError p) = Some p"
| "error_filename (NotADirectoryError p) = Some p"
| "error_filename IndexError = None"
| "error_filename Cv2Error = None"

text \<open>\<open>Path(p) / Path(q)\<close> followed by \<open>str\<close>, for a relative single component \<open>q\<close>.\<close>

definition joinpath :: "path \<Rightarrow> string \<Rightarrow> path" where
  "joinpath p q = (if p = ''/'' then p @ q else p @ ''/'' @ q)"

text \<open>
  \<open>Path(d).glob("*")\<close>: the entries of \<open>d\<close> in listing order, as full paths. A name whose
  path has been unlinked is no longer listed; a receiver that is missing or is not a
  directory yields nothing.
\<close>

definition glob_star :: "filesystem \<Rightarrow> path \<Rightarrow> path list" where
  "glob_star fs d =
     (case nodes fs d of
        Some (Dir names) \<Rightarrow> [joinpath d n. n \<leftarrow> names, nodes fs (joinpath d n) \<noteq> None]
      | _ \<Rightarrow> [])"

definition is_file :: "filesystem \<Rightarrow> path \<Rightarrow> bool" where
  "is_file fs p = (case nodes fs p of Some (File _) \<Rightarrow> True | _ \<Rightarrow> False)"

text \<open>
  \<open>cv2.imread(str(p))\<close>: \<open>Inr (Some a)\<close> for the decoded array \<open>a\<close>, \<open>Inr None\<close> when the
  call returns \<open>None\<close>, \<open>Inl e\<close> when it raises \<open>e\<close>. A path that is not a regular file
  gives \<open>None\<close>.
\<close>

definition cv2_imread ::
  "(bytes \<Rightarrow> py_error + 'img option) \<Rightarrow> filesystem \<Rightarrow> path \<Rightarrow> py_error + 'img option" where
  "cv2_imread dec fs p = (case nodes fs p of Some (File b) \<Rightarrow> dec b | _ \<Rightarrow> Inr None)"

text \<open>
  \<open>os.remove(p)\<close>: every failure is an \<open>OSError\<close> whose \<open>filename\<close> is \<open>p\<close>. The strings the
  function passes are paths that \<open>glob\<close> produced, or such a path cut at a separator. A cut
  path may end in a slash; the operating system then resolves it to what stands in front
  of the slash, and refuses it when that is a regular file. For a directory the subclass
  of \<open>OSError\<close> depends on the platform; the model uses \<open>IsADirectoryError\<close>.
\<close>

definition trailing_slash :: "path \<Rightarrow> bool" where
  "trailing_slash p = (1 < length p \<and> last p = CHR ''/'')"

definition os_remove :: "filesystem \<Rightarrow> path \<Rightarrow> py_error + filesystem" where
  "os_remove fs p =
     (case nodes fs (if trailing_slash p then butlast p else p) of
        None \<Rightarrow> Inl (FileNotFoundError p)
      | Some (Dir _) \<Rightarrow> Inl (IsADirectoryError p)
      | Some (File _) \<Rightarrow>
          if trailing_slash p then Inl (NotADirectoryError p)
          else if p \<in> protected fs then Inl (PermissionError p)
          else Inr (fs\<lparr>nodes := (nodes fs)(p := None)\<rparr>))"

subsection \<open>Strings: \<open>str(int)\<close> and \<open>str.split\<close>\<close>

definition digit_char :: "nat \<Rightarrow> char" where
  "digit_char d = char_of (48 + d)"

function str_nat :: "nat \<Rightarrow> string" where
  "str_nat n = (if n < 10 then [digit_char n] else str_nat (n div 10) @ [digit_char (n mod 10)])"
  by pat_completeness auto
termination
  by (relation "measure id") auto

declare str_nat.simps [simp del]

text \<open>
  \<open>s.split(sep)\<close> for a non-empty separator: scan from the left, cut at every occurrence
  of \<open>sep\<close> and go on behind it. \<open>cur\<close> is the piece collected so far. The function
  only ever passes the separator \<open>": "\<close>.
\<close>

function split_from :: "string \<Rightarrow> string \<Rightarrow> string \<Rightarrow> string list" where
  "split_from sep cur [] = [cur]"
| "split_from sep cur (c # cs) =
     (if sep \<noteq> [] \<and> prefix sep (c # cs)
      then cur # split_from sep [] (drop (length sep) (c # cs))
      else split_from sep (cur @ [c]) cs)"
  by pat_completeness auto
termination
  by (relation "measure (\<lambda>(sep, cur, s). length s)") auto

definition py_split :: "string \<Rightarrow> string \<Rightarrow> string list" where
  "py_split s sep = split_from sep [] s"

text \<open>\<open>di.split(': ')[1]\<close>: the second piece, \<open>IndexError\<close> when there is none.\<close>

definition split_second :: "string \<Rightarrow> py_error + path" where
  "split_second di =
     (case py_split di '': '' of
        a # b # rest \<Rightarrow> Inr b
      | _ \<Rightarrow> Inl IndexError)"

subsection \<open>The scan\<close>

type_synonym scan_state = "(string \<rightharpoonup> nat) \<times> (nat \<times> string) list"

text \<open>
  A \<open>for\<close> statement whose body may raise: the body runs on the elements in turn, and the
  first exception ends the iteration.
\<close>

fun run_loop :: "('s \<Rightarrow> 'a \<Rightarrow> py_error + 's) \<Rightarrow> 's \<Rightarrow> 'a list \<Rightarrow> py_error + 's" where
  "run_loop body s [] = Inr s"
| "run_loop body s (x # xs) =
     (case body s x of
        Inl e \<Rightarrow> Inl e
      | Inr s' \<Rightarrow> run_loop body s' xs)"

text \<open>The body of the inner iteration, for one pair \<open>(i, image)\<close> of the enumeration.\<close>

definition visit ::
  "(bytes \<Rightarrow> py_error + 'img option) \<Rightarrow> ('img option \<Rightarrow> string) \<Rightarrow> filesystem \<Rightarrow>
   scan_state \<Rightarrow> nat \<times> path \<Rightarrow> py_error + scan_state" where
  "visit dec md5 fs st e =
     (case st of (hash_keys, dupes) \<Rightarrow>
      case e of (i, image_path) \<Rightarrow>
        if is_file fs image_path then
          (case cv2_imread dec fs image_path of
             Inl err \<Rightarrow> Inl err
           | Inr img_array \<Rightarrow>
               (let file_hash = md5 img_array
                in case hash_keys file_hash of
                     None \<Rightarrow> Inr (hash_keys(file_hash \<mapsto> i), dupes)
                   | Some first \<Rightarrow>
                       Inr (hash_keys, dupes @ [(i, str_nat first @ '': '' @ image_path)])))
        else Inr (hash_keys, dupes))"

definition scan_folder ::
  "(bytes \<Rightarrow> py_error + 'img option) \<Rightarrow> ('img option \<Rightarrow> string) \<Rightarrow> filesystem \<Rightarrow> path \<Rightarrow>
   scan_state \<Rightarrow> string \<Rightarrow> py_error + scan_state" where
  "scan_folder dec md5 fs image_folder st f =
     run_loop (visit dec md5 fs) st (List.enumerate 0 (glob_star fs (joinpath image_folder f)))"

definition scan ::
  "(bytes \<Rightarrow> py_error + 'img option) \<Rightarrow> ('img option \<Rightarrow> string) \<Rightarrow> filesystem \<Rightarrow> path \<Rightarrow>
   string list \<Rightarrow> py_error + scan_state" where
  "scan dec md5 fs image_folder folders =
     run_loop (scan_folder dec md5 fs image_folder) (Map.empty, []) folders"

subsection \<open>The deletion loop and the whole function\<close>

text \<open>
  The loop stops at the first exception; the result is the exception, if any, and the
  file system as the loop left it.
\<close>

fun remove_loop :: "filesystem \<Rightarrow> (nat \<times> string) list \<Rightarrow> py_error option \<times> filesystem" where
  "remove_loop fs [] = (None, fs)"
| "remove_loop fs ((si, di) # ds) =
     (case split_second di of
        Inl e \<Rightarrow> (Some e, fs)
      | Inr p \<Rightarrow>
          (case os_remove fs p of
             Inl e \<Rightarrow> (Some e, fs)
           | Inr fs' \<Rightarrow> remove_loop fs' ds))"

definition class_folders :: "string list" where
  "class_folders = [''no'', ''yes'']"

definition image_folder_of :: "path \<Rightarrow> path" where
  "image_folder_of cwd_parent =
     joinpath (joinpath (joinpath cwd_parent ''data'') ''brain_tumor_dataset'') ''raw_images''"

text \<open>
  What a call leaves behind: the number printed in the line
  \<open>Total number of duplicated images: n\<close> (nothing is printed when the scan raises), the
  exception that ended the call (if any) and the file system afterwards.
\<close>

record run_result =
  printed_total :: "nat option"
  raised :: "py_error option"
  fs_after :: filesystem

definition remove_duplicate_images ::
  "(bytes \<Rightarrow> py_error + 'img option) \<Rightarrow> ('img option \<Rightarrow> string) \<Rightarrow> path \<Rightarrow> filesystem \<Rightarrow>
   run_result" where
  "remove_duplicate_images dec md5 cwd_parent fs =
     (let image_folder = image_folder_of cwd_parent
      in case scan dec md5 fs image_folder class_folders of
           Inl e \<Rightarrow> \<lparr>printed_total = None, raised = Some e, fs_after = fs\<rparr>
         | Inr (hash_keys, dupes) \<Rightarrow>
             (let r = remove_loop fs dupes
              in \<lparr>printed_total = Some (length dupes), raised = fst r, fs_after = snd r\<rparr>))"

subsection \<open>Notions used to state the properties\<close>

text \<open>
  The pairs \<open>(i, image)\<close> that the two nested iterations go through, in order: the enumeration
  of each folder's listing, one folder after the other.
\<close>

definition entries :: "filesystem \<Rightarrow> path \<Rightarrow> string list \<Rightarrow> (nat \<times> path) list" where
  "entries fs image_folder folders =
     concat (map (\<lambda>f. List.enumerate 0 (glob_star fs (joinpath image_folder f))) folders)"

text \<open>The regular files among them: the files the scan hashes.\<close>

definition scanned_files :: "filesystem \<Rightarrow> path \<Rightarrow> string list \<Rightarrow> path list" where
  "scanned_files fs image_folder folders =
     filter (is_file fs) (map snd (entries fs image_folder folders))"

text \<open>
  What the body computes for a path: the value of \<open>file_hash\<close>, or the exception that
  \<open>cv2.imread\<close> raises.
\<close>

definition fingerprint ::
  "(bytes \<Rightarrow> py_error + 'img option) \<Rightarrow> ('img option \<Rightarrow> string) \<Rightarrow> filesystem \<Rightarrow> path \<Rightarrow>
   py_error + string" where
  "fingerprint dec md5 fs p =
     (case cv2_imread dec fs p of Inl e \<Rightarrow> Inl e | Inr a \<Rightarrow> Inr (md5 a))"

text \<open>The hashes computed for the regular files among some pairs of the enumeration.\<close>

definition file_hashes ::
  "(bytes \<Rightarrow> py_error + 'img option) \<Rightarrow> ('img option \<Rightarrow> string) \<Rightarrow> filesystem \<Rightarrow>
   (nat \<times> path) list \<Rightarrow> string list" where
  "file_hashes dec md5 fs es =
     concat (map (\<lambda>e. if is_file fs (snd e)
                       then (case fingerprint dec md5 fs (snd e) of Inl err \<Rightarrow> [] | Inr h \<Rightarrow> [h])
                       else []) es)"

definition seen_hashes ::
  "(bytes \<Rightarrow> py_error + 'img option) \<Rightarrow> ('img option \<Rightarrow> string) \<Rightarrow> filesystem \<Rightarrow>
   (nat \<times> path) list \<Rightarrow> string set" where
  "seen_hashes dec md5 fs es = set (file_hashes dec md5 fs es)"

text \<open>
  What a scan leaves in \<open>hash_keys\<close> under a hash, and in \<open>dupes\<close>, when it returns; the
  exception when it raises.
\<close>

definition index_at :: "py_error + scan_state \<Rightarrow> string \<Rightarrow> py_error + nat option" where
  "index_at r h = (case r of Inl e \<Rightarrow> Inl e | Inr st \<Rightarrow> Inr (fst st h))"

definition dupes_of :: "py_error + scan_state \<Rightarrow> py_error + (nat \<times> string) list" where
  "dupes_of r = (case r of Inl e \<Rightarrow> Inl e | Inr st \<Rightarrow> Inr (snd st))"

text \<open>A path on which \<open>cv2.imread\<close> raises.\<close>

definition refused :: "(bytes \<Rightarrow> py_error + 'img option) \<Rightarrow> filesystem \<Rightarrow> path \<Rightarrow> bool" where
  "refused dec fs p = (case cv2_imread dec fs p of Inl e \<Rightarrow> True | Inr a \<Rightarrow> False)"

text \<open>
  The later copies: the paths of the regular files whose hash was already computed for a
  regular file earlier in the enumeration, in the order of the scan.
\<close>

definition later_copies ::
  "(bytes \<Rightarrow> py_error + 'img option) \<Rightarrow> ('img option \<Rightarrow> string) \<Rightarrow> filesystem \<Rightarrow>
   (nat \<times> path) list \<Rightarrow> path list" where
  "later_copies dec md5 fs es =
     map (\<lambda>k. snd (es ! k))
       (filter (\<lambda>k. is_file fs (snd (es ! k)) \<and>
                    (case fingerprint dec md5 fs (snd (es ! k)) of
                       Inl err \<Rightarrow> False
                     | Inr h \<Rightarrow> h \<in> seen_hashes dec md5 fs (take k es)))
          [0..<length es])"

subsection \<open>Concrete inputs\<close>

text \<open>
  A small decoder and digest to run the model on: the first byte of a file is a format tag
  (1 and 2 are two encodings of the same pixels, 3 is a header that \<open>cv2.imread\<close> refuses
  with an exception, anything else gives \<open>None\<close>), the remaining bytes are the pixels; the
  digest writes the pixels out.
\<close>

fun tag_decode :: "bytes \<Rightarrow> py_error + nat list option" where
  "tag_decode [] = Inr None"
| "tag_decode (t # px) =
     (if t = 1 \<or> t = 2 then Inr (Some px) else if t = 3 then Inl Cv2Error else Inr None)"

fun demo_digest :: "nat list option \<Rightarrow> string" where
  "demo_digest None = ''none''"
| "demo_digest (Some px) = concat (map (\<lambda>n. CHR ''.'' # str_nat n) px)"

text \<open>
  Folder \<open>no\<close> lists \<open>c.png\<close>, \<open>a: b.png\<close> (the same pixels in the other encoding) and
  \<open>a\<close> (other pixels); folder \<open>yes\<close> is empty.
\<close>

definition ex_colon :: filesystem where
  "ex_colon =
     \<lparr>nodes = [''/w/data/brain_tumor_dataset/raw_images/no'' \<mapsto> Dir [''c.png'', ''a: b.png'', ''a''],
               ''/w/data/brain_tumor_dataset/raw_images/no/c.png'' \<mapsto> File [1, 7, 7],
               ''/w/data/brain_tumor_dataset/raw_images/no/a: b.png'' \<mapsto> File [2, 7, 7],
               ''/w/data/brain_tumor_dataset/raw_images/no/a'' \<mapsto> File [1, 9],
               ''/w/data/brain_tumor_dataset/raw_images/yes'' \<mapsto> Dir []],
      protected = {}\<rparr>"

text \<open>One file in each folder, the same pixels in both; the one in \<open>yes\<close> is \<open>a: b.png\<close>.\<close>

definition ex_cross :: filesystem where
  "ex_cross =
     \<lparr>nodes = [''/w/data/brain_tumor_dataset/raw_images/no'' \<mapsto> Dir [''x.png''],
               ''/w/data/brain_tumor_dataset/raw_images/no/x.png'' \<mapsto> File [1, 7, 7],
               ''/w/data/brain_tumor_dataset/raw_images/yes'' \<mapsto> Dir [''a: b.png''],
               ''/w/data/brain_tumor_dataset/raw_images/yes/a: b.png'' \<mapsto> File [2, 7, 7]],
      protected = {}\<rparr>"

text \<open>Two files in \<open>no\<close>, for both of which \<open>cv2.imread\<close> returns \<open>None\<close>.\<close>

definition ex_broken :: filesystem where
  "ex_broken =
     \<lparr>nodes = [''/w/data/brain_tumor_dataset/raw_images/no'' \<mapsto> Dir [''b1.png'', ''b2.png''],
               ''/w/data/brain_tumor_dataset/raw_images/no/b1.png'' \<mapsto> File [0, 5],
               ''/w/data/brain_tumor_dataset/raw_images/no/b2.png'' \<mapsto> File [0, 6],
               ''/w/data/brain_tumor_dataset/raw_images/yes'' \<mapsto> Dir []],
      protected = {}\<rparr>"

text \<open>Folder \<open>yes\<close> does not exist.\<close>

definition ex_missing :: filesystem where
  "ex_missing =
     \<lparr>nodes = [''/w/data/brain_tumor_dataset/raw_images/no'' \<mapsto> Dir [''x.png''],
               ''/w/data/brain_tumor_dataset/raw_images/no/x.png'' \<mapsto> File [1, 7, 7]],
      protected = {}\<rparr>"

text \<open>One file in each folder, with different pixels.\<close>

definition ex_index :: filesystem where
  "ex_index =
     \<lparr>nodes = [''/w/data/brain_tumor_dataset/raw_images/no'' \<mapsto> Dir [''a.png''],
               ''/w/data/brain_tumor_dataset/raw_images/no/a.png'' \<mapsto> File [1, 7],
               ''/w/data/brain_tumor_dataset/raw_images/yes'' \<mapsto> Dir [''b.png''],
               ''/w/data/brain_tumor_dataset/raw_images/yes/b.png'' \<mapsto> File [1, 9]],
      protected = {}\<rparr>"

text \<open>Two files with the same content in \<open>no\<close>; the second may not be unlinked.\<close>

definition ex_locked :: filesystem where
  "ex_locked =
     \<lparr>nodes = [''/w/data/brain_tumor_dataset/raw_images/no'' \<mapsto> Dir [''x.png'', ''y.png''],
               ''/w/data/brain_tumor_dataset/raw_images/no/x.png'' \<mapsto> File [1, 7],
               ''/w/data/brain_tumor_dataset/raw_images/no/y.png'' \<mapsto> File [1, 7],
               ''/w/data/brain_tumor_dataset/raw_images/yes'' \<mapsto> Dir []],
      protected = {''/w/data/brain_tumor_dataset/raw_images/no/y.png''}\<rparr>"

text \<open>
  Folder \<open>no\<close> lists \<open>x.png\<close> and \<open>y.png\<close>, folder \<open>yes\<close> lists \<open>z.png\<close>; all three
  decode to the same pixels and no path contains the separator.
\<close>

definition ex_plain :: filesystem where
  "ex_plain =
     \<lparr>nodes = [''/w/data/brain_tumor_dataset/raw_images/no'' \<mapsto> Dir [''x.png'', ''y.png''],
               ''/w/data/brain_tumor_dataset/raw_images/no/x.png'' \<mapsto> File [1, 7, 7],
               ''/w/data/brain_tumor_dataset/raw_images/no/y.png'' \<mapsto> File [2, 7, 7],
               ''/w/data/brain_tumor_dataset/raw_images/yes'' \<mapsto> Dir [''z.png''],
               ''/w/data/brain_tumor_dataset/raw_images/yes/z.png'' \<mapsto> File [1, 7, 7]],
      protected = {}\<rparr>"

text \<open>
  Folder \<open>no\<close> lists \<open>x.png\<close>, \<open>y.png\<close> with the same pixels and \<open>r.png\<close>, which
  \<open>cv2.imread\<close> refuses.
\<close>

definition ex_refused :: filesystem where
  "ex_refused =
     \<lparr>nodes = [''/w/data/brain_tumor_dataset/raw_images/no'' \<mapsto> Dir [''x.png'', ''y.png'', ''r.png''],
               ''/w/data/brain_tumor_dataset/raw_images/no/x.png'' \<mapsto> File [1, 7],
               ''/w/data/brain_tumor_dataset/raw_images/no/y.png'' \<mapsto> File [1, 7],
               ''/w/data/brain_tumor_dataset/raw_images/no/r.png'' \<mapsto> File [3, 5],
               ''/w/data/brain_tumor_dataset/raw_images/yes'' \<mapsto> Dir []],
      protected = {}\<rparr>"

section \<open>Lemmas\<close>

subsection \<open>Splitting the display string\<close>

lemma split_from_no_sep:
  "\<not> sublist sep s \<Longrightarrow> split_from sep cur s = [cur @ s]"
  by (induction s arbitrary: cur) (auto simp: sublist_Cons_right)

lemma split_from_skip:
  "sep \<noteq> [] \<Longrightarrow> hd sep \<notin> set a \<Longrightarrow>
   split_from sep cur (a @ sep @ rest) = (cur @ a) # split_from sep [] rest"
proof (induction a arbitrary: cur)
  case Nil
  then show ?case by (cases sep) auto
next
  case (Cons c a)
  from Cons.prems have "\<not> prefix sep (c # a @ sep @ rest)"
    by (cases sep) auto
  with Cons show ?case by simp
qed

lemma split_from_first_piece:
  "sep \<noteq> [] \<Longrightarrow> sublist sep s \<Longrightarrow>
   \<exists>q rest. split_from sep cur s = (cur @ q) # rest \<and> strict_prefix q s"
proof (induction s arbitrary: cur)
  case Nil
  then show ?case by simp
next
  case (Cons c cs)
  show ?case
  proof (cases "prefix sep (c # cs)")
    case True
    with Cons.prems have "split_from sep cur (c # cs) = (cur @ []) # split_from sep [] (drop (length sep) (c # cs))"
      by simp
    moreover have "strict_prefix [] (c # cs)" by simp
    ultimately show ?thesis by blast
  next
    case False
    with Cons.prems have "sublist sep cs" by (simp add: sublist_Cons_right)
    from Cons.IH[OF Cons.prems(1) this, of "cur @ [c]"]
    obtain q rest where "split_from sep (cur @ [c]) cs = (cur @ [c] @ q) # rest" "strict_prefix q cs"
      by auto
    with False have "split_from sep cur (c # cs) = (cur @ (c # q)) # rest" "strict_prefix (c # q) (c # cs)"
      by simp_all
    then show ?thesis by blast
  qed
qed

lemma digit_char_not_colon: "d < 10 \<Longrightarrow> digit_char d \<noteq> CHR '':''"
proof
  assume "d < 10" and "digit_char d = CHR '':''"
  then have "(of_char (char_of (48 + d)) :: nat) = of_char CHR '':''"
    by (simp add: digit_char_def)
  with \<open>d < 10\<close> show False by simp
qed

lemma str_nat_no_colon: "CHR '':'' \<notin> set (str_nat n)"
proof (induction n rule: str_nat.induct)
  case (1 n)
  show ?case
  proof (cases "n < 10")
    case True
    then show ?thesis
      using digit_char_not_colon[of n] by (subst str_nat.simps) auto
  next
    case False
    with 1 show ?thesis
      using digit_char_not_colon[of "n mod 10"] by (subst str_nat.simps) auto
  qed
qed

lemma py_split_display:
  "py_split (str_nat v @ '': '' @ p) '': '' = str_nat v # py_split p '': ''"
proof -
  have "split_from '': '' [] (str_nat v @ '': '' @ p) = ([] @ str_nat v) # split_from '': '' [] p"
    by (rule split_from_skip) (simp_all add: str_nat_no_colon)
  then show ?thesis by (simp add: py_split_def)
qed

lemma split_second_plain:
  "\<not> sublist '': '' p \<Longrightarrow> split_second (str_nat v @ '': '' @ p) = Inr p"
proof -
  assume "\<not> sublist '': '' p"
  then have "py_split p '': '' = [p]"
    by (simp add: py_split_def split_from_no_sep)
  then show ?thesis
    unfolding split_second_def py_split_display by simp
qed

lemma split_second_truncated:
  assumes "sublist '': '' p"
  shows "\<exists>q. split_second (str_nat v @ '': '' @ p) = Inr q \<and> strict_prefix q p"
proof -
  from split_from_first_piece[OF _ assms, of "[]"]
  obtain q rest where "split_from '': '' [] p = q # rest" "strict_prefix q p" by auto
  then have "py_split p '': '' = q # rest"
    by (simp add: py_split_def)
  then have "split_second (str_nat v @ '': '' @ p) = Inr q"
    unfolding split_second_def py_split_display by simp
  with \<open>strict_prefix q p\<close> show ?thesis by blast
qed

subsection \<open>Iterations that may raise\<close>

lemma run_loop_append:
  "run_loop body s (xs @ ys) =
     (case run_loop body s xs of Inl e \<Rightarrow> Inl e | Inr s' \<Rightarrow> run_loop body s' ys)"
  by (induction xs arbitrary: s) (auto split: sum.splits)

lemma run_loop_snoc_Inr:
  assumes "run_loop body s (xs @ [x]) = Inr s2"
  obtains s1 where "run_loop body s xs = Inr s1" and "body s1 x = Inr s2"
  using assms by (auto simp: run_loop_append split: sum.splits)

lemma run_loop_Cons_Inr:
  assumes "run_loop body s (x # xs) = Inr s2"
  obtains s1 where "body s x = Inr s1" and "run_loop body s1 xs = Inr s2"
  using assms by (auto split: sum.splits)

subsection \<open>The scan as one iteration over the enumeration\<close>

lemma scan_entries_gen:
  "run_loop (scan_folder dec md5 fs image_folder) st folders =
   run_loop (visit dec md5 fs) st (entries fs image_folder folders)"
proof (induction folders arbitrary: st)
  case Nil
  then show ?case by (simp add: entries_def)
next
  case (Cons f folders)
  let ?here = "List.enumerate 0 (glob_star fs (joinpath image_folder f))"
  have e: "entries fs image_folder (f # folders) = ?here @ entries fs image_folder folders"
    by (simp add: entries_def)
  have "run_loop (scan_folder dec md5 fs image_folder) st (f # folders) =
      (case scan_folder dec md5 fs image_folder st f of
         Inl err \<Rightarrow> Inl err
       | Inr s' \<Rightarrow> run_loop (visit dec md5 fs) s' (entries fs image_folder folders))"
    by (cases "scan_folder dec md5 fs image_folder st f") (simp_all add: Cons.IH)
  also have "scan_folder dec md5 fs image_folder st f = run_loop (visit dec md5 fs) st ?here"
    by (simp add: scan_folder_def)
  finally show ?case
    by (simp only: e run_loop_append)
qed

lemma scan_entries:
  "scan dec md5 fs image_folder folders =
   run_loop (visit dec md5 fs) (Map.empty, []) (entries fs image_folder folders)"
  by (simp add: scan_def scan_entries_gen)

lemma file_hashes_Nil: "file_hashes dec md5 fs [] = []"
  by (simp add: file_hashes_def)

lemma file_hashes_skip:
  "\<not> is_file fs (snd e) \<Longrightarrow> file_hashes dec md5 fs (e # es) = file_hashes dec md5 fs es"
  by (simp add: file_hashes_def)

lemma file_hashes_refused:
  "fingerprint dec md5 fs (snd e) = Inl err \<Longrightarrow>
   file_hashes dec md5 fs (e # es) = file_hashes dec md5 fs es"
  by (simp add: file_hashes_def)

lemma file_hashes_hashed:
  "is_file fs (snd e) \<Longrightarrow> fingerprint dec md5 fs (snd e) = Inr h \<Longrightarrow>
   file_hashes dec md5 fs (e # es) = h # file_hashes dec md5 fs es"
  by (simp add: file_hashes_def)

lemma in_seen_hashes:
  "h \<in> seen_hashes dec md5 fs es \<longleftrightarrow>
     (\<exists>e \<in> set es. is_file fs (snd e) \<and> fingerprint dec md5 fs (snd e) = Inr h)"
proof (induction es)
  case Nil
  then show ?case by (simp add: seen_hashes_def file_hashes_Nil)
next
  case (Cons a es)
  show ?case
  proof (cases "is_file fs (snd a)")
    case False
    with Cons show ?thesis
      by (auto simp: seen_hashes_def file_hashes_skip)
  next
    case True
    show ?thesis
    proof (cases "fingerprint dec md5 fs (snd a)")
      case (Inl err)
      with Cons show ?thesis
        by (auto simp: seen_hashes_def file_hashes_refused)
    next
      case (Inr h')
      with Cons True show ?thesis
        by (auto simp: seen_hashes_def file_hashes_hashed)
    qed
  qed
qed

lemma seen_hashes_Nil: "seen_hashes dec md5 fs [] = {}"
  by (simp add: seen_hashes_def file_hashes_Nil)

lemma seen_hashes_Cons:
  "seen_hashes dec md5 fs (e # es) = seen_hashes dec md5 fs [e] \<union> seen_hashes dec md5 fs es"
  by (auto simp: in_seen_hashes)

lemma seen_hashes_append:
  "seen_hashes dec md5 fs (xs @ ys) = seen_hashes dec md5 fs xs \<union> seen_hashes dec md5 fs ys"
  by (auto simp: in_seen_hashes)

lemma refused_iff: "refused dec fs p \<longleftrightarrow> (\<exists>err. fingerprint dec md5 fs p = Inl err)"
  by (auto simp: refused_def fingerprint_def split: sum.splits)

lemma not_refused_iff: "\<not> refused dec fs p \<longleftrightarrow> (\<exists>h. fingerprint dec md5 fs p = Inr h)"
  by (auto simp: refused_def fingerprint_def split: sum.splits)

lemma visit_not_file: "\<not> is_file fs (snd e) \<Longrightarrow> visit dec md5 fs st e = Inr st"
  by (cases st; cases e) (simp add: visit_def)

lemma visit_raise:
  "is_file fs p \<Longrightarrow> fingerprint dec md5 fs p = Inl err \<Longrightarrow>
   visit dec md5 fs (hk, du) (i, p) = Inl err"
  by (auto simp: visit_def fingerprint_def split: sum.splits)

lemma visit_new:
  "is_file fs p \<Longrightarrow> fingerprint dec md5 fs p = Inr h \<Longrightarrow> hk h = None \<Longrightarrow>
   visit dec md5 fs (hk, du) (i, p) = Inr (hk(h \<mapsto> i), du)"
  by (auto simp: visit_def fingerprint_def split: sum.splits)

lemma visit_dup:
  "is_file fs p \<Longrightarrow> fingerprint dec md5 fs p = Inr h \<Longrightarrow> hk h = Some v \<Longrightarrow>
   visit dec md5 fs (hk, du) (i, p) = Inr (hk, du @ [(i, str_nat v @ '': '' @ p)])"
  by (auto simp: visit_def fingerprint_def split: sum.splits)

lemma visit_cases:
  obtains (skip) "\<not> is_file fs (snd e)" "visit dec md5 fs st e = Inr st"
  | (raise) err where "is_file fs (snd e)" "fingerprint dec md5 fs (snd e) = Inl err"
      "visit dec md5 fs st e = Inl err"
  | (new) h where "is_file fs (snd e)" "fingerprint dec md5 fs (snd e) = Inr h" "fst st h = None"
      "visit dec md5 fs st e = Inr ((fst st)(h \<mapsto> fst e), snd st)"
  | (dup) h v where "is_file fs (snd e)" "fingerprint dec md5 fs (snd e) = Inr h" "fst st h = Some v"
      "visit dec md5 fs st e = Inr (fst st, snd st @ [(fst e, str_nat v @ '': '' @ snd e)])"
proof (cases "is_file fs (snd e)")
  case False
  then show ?thesis using skip visit_not_file by blast
next
  case True
  show ?thesis
  proof (cases "fingerprint dec md5 fs (snd e)")
    case (Inl err)
    with True show ?thesis
      using raise visit_raise[of fs "snd e" dec md5 err "fst st" "snd st" "fst e"] by simp
  next
    case (Inr h)
    show ?thesis
    proof (cases "fst st h")
      case None
      with True Inr show ?thesis
        using new visit_new[of fs "snd e" dec md5 h "fst st" "snd st" "fst e"] by simp
    next
      case (Some v)
      with True Inr show ?thesis
        using dup visit_dup[of fs "snd e" dec md5 h "fst st" v "snd st" "fst e"] by simp
    qed
  qed
qed

lemma visit_hash_keys_mono:
  "visit dec md5 fs st e = Inr st' \<Longrightarrow> fst st h = Some v \<Longrightarrow> fst st' h = Some v"
  by (cases rule: visit_cases[of fs e dec md5 st]) auto

lemma run_visit_hash_keys_mono:
  "run_loop (visit dec md5 fs) st es = Inr st' \<Longrightarrow> fst st h = Some v \<Longrightarrow> fst st' h = Some v"
proof (induction es arbitrary: st)
  case Nil
  then show ?case by simp
next
  case (Cons e es)
  from Cons.prems(1) obtain s1 where s1: "visit dec md5 fs st e = Inr s1"
    "run_loop (visit dec md5 fs) s1 es = Inr st'"
    by (rule run_loop_Cons_Inr)
  from visit_hash_keys_mono[OF s1(1) Cons.prems(2)] have "fst s1 h = Some v" .
  with Cons.IH[OF s1(2)] show ?case by blast
qed

lemma visit_dupes_prefix: "visit dec md5 fs st e = Inr st' \<Longrightarrow> prefix (snd st) (snd st')"
  by (cases rule: visit_cases[of fs e dec md5 st]) auto

lemma run_visit_dupes_prefix:
  "run_loop (visit dec md5 fs) st es = Inr st' \<Longrightarrow> prefix (snd st) (snd st')"
proof (induction es arbitrary: st)
  case Nil
  then show ?case by simp
next
  case (Cons e es)
  from Cons.prems obtain s1 where s1: "visit dec md5 fs st e = Inr s1"
    "run_loop (visit dec md5 fs) s1 es = Inr st'"
    by (rule run_loop_Cons_Inr)
  have "prefix (snd st) (snd s1)" using s1(1) by (rule visit_dupes_prefix)
  also have "prefix \<dots> (snd st')" using s1(2) by (rule Cons.IH)
  finally show ?case .
qed

lemma visit_dom:
  "visit dec md5 fs st e = Inr st' \<Longrightarrow>
   dom (fst st') = dom (fst st) \<union> seen_hashes dec md5 fs [e]"
  by (cases rule: visit_cases[of fs e dec md5 st]) (auto simp: in_seen_hashes)

lemma run_visit_dom:
  "run_loop (visit dec md5 fs) st es = Inr st' \<Longrightarrow>
   dom (fst st') = dom (fst st) \<union> seen_hashes dec md5 fs es"
proof (induction es arbitrary: st)
  case Nil
  then show ?case by (simp add: seen_hashes_Nil)
next
  case (Cons e es)
  from Cons.prems obtain s1 where s1: "visit dec md5 fs st e = Inr s1"
    "run_loop (visit dec md5 fs) s1 es = Inr st'"
    by (rule run_loop_Cons_Inr)
  show ?case
    using Cons.IH[OF s1(2)] visit_dom[OF s1(1)] seen_hashes_Cons[of dec md5 fs e es]
    by (simp add: Un_assoc)
qed

text \<open>The scan returns exactly when \<open>cv2.imread\<close> raises on no regular file of the enumeration.\<close>

lemma run_visit_returns:
  "(\<exists>st'. run_loop (visit dec md5 fs) st es = Inr st') \<longleftrightarrow>
   (\<forall>e \<in> set es. is_file fs (snd e) \<longrightarrow> \<not> refused dec fs (snd e))"
proof (induction es arbitrary: st)
  case Nil
  then show ?case by simp
next
  case (Cons e es)
  show ?case
  proof (cases rule: visit_cases[of fs e dec md5 st])
    case skip
    with Cons.IH[of st] show ?thesis by simp
  next
    case (raise err)
    then have "refused dec fs (snd e)" using refused_iff[of dec fs "snd e" md5] by blast
    with raise show ?thesis by simp
  next
    case (new h)
    then have "\<not> refused dec fs (snd e)" using not_refused_iff[of dec fs "snd e" md5] by blast
    with new Cons.IH[of "((fst st)(h \<mapsto> fst e), snd st)"] show ?thesis by simp
  next
    case (dup h v)
    then have "\<not> refused dec fs (snd e)" using not_refused_iff[of dec fs "snd e" md5] by blast
    with dup Cons.IH[of "(fst st, snd st @ [(fst e, str_nat v @ '': '' @ snd e)])"]
    show ?thesis by simp
  qed
qed

text \<open>The first regular file on which \<open>cv2.imread\<close> raises ends the scan with its exception.\<close>

lemma run_visit_raises:
  assumes "\<forall>e \<in> set xs. is_file fs (snd e) \<longrightarrow> \<not> refused dec fs (snd e)"
    and "is_file fs p" and "cv2_imread dec fs p = Inl err"
  shows "run_loop (visit dec md5 fs) st (xs @ (i, p) # ys) = Inl err"
proof -
  from assms(1) obtain s1 where s1: "run_loop (visit dec md5 fs) st xs = Inr s1"
    using run_visit_returns[of dec md5 fs st xs] by blast
  have "fingerprint dec md5 fs p = Inl err"
    using assms(3) by (simp add: fingerprint_def)
  then have "visit dec md5 fs s1 (i, p) = Inl err"
    using visit_raise[OF assms(2), of dec md5 err "fst s1" "snd s1" i] by simp
  with s1 show ?thesis by (simp add: run_loop_append)
qed

text \<open>
  A regular file whose hash is in the index when the iteration reaches it is appended to
  \<open>dupes\<close>, under the index value stored for its hash.
\<close>

lemma run_visit_marks:
  assumes "run_loop (visit dec md5 fs) st (xs @ (i, p) # ys) = Inr st'"
    and "is_file fs p" and "fingerprint dec md5 fs p = Inr h"
    and "h \<in> dom (fst st) \<union> seen_hashes dec md5 fs xs"
  shows "\<exists>v. fst st' h = Some v \<and> (i, str_nat v @ '': '' @ p) \<in> set (snd st')"
proof -
  from assms(1) obtain s1 where s1: "run_loop (visit dec md5 fs) st xs = Inr s1"
    and rest: "run_loop (visit dec md5 fs) s1 ((i, p) # ys) = Inr st'"
    by (auto simp: run_loop_append split: sum.splits)
  from rest obtain s2 where s2: "visit dec md5 fs s1 (i, p) = Inr s2"
    and s3: "run_loop (visit dec md5 fs) s2 ys = Inr st'"
    by (rule run_loop_Cons_Inr)
  from assms(4) have "h \<in> dom (fst s1)"
    by (simp add: run_visit_dom[OF s1])
  then obtain v where v: "fst s1 h = Some v" by auto
  have "visit dec md5 fs s1 (i, p) = Inr (fst s1, snd s1 @ [(i, str_nat v @ '': '' @ p)])"
    using visit_dup[OF assms(2,3), of "fst s1" v "snd s1" i] v by simp
  with s2 have s2eq: "s2 = (fst s1, snd s1 @ [(i, str_nat v @ '': '' @ p)])" by simp
  then have "fst s2 h = Some v" using v by simp
  then have key: "fst st' h = Some v"
    by (rule run_visit_hash_keys_mono[OF s3])
  from s2eq have "(i, str_nat v @ '': '' @ p) \<in> set (snd s2)" by simp
  moreover have "prefix (snd s2) (snd st')"
    using s3 by (rule run_visit_dupes_prefix)
  ultimately have "(i, str_nat v @ '': '' @ p) \<in> set (snd st')"
    using set_mono_prefix by blast
  with key show ?thesis by auto
qed

text \<open>Nothing is appended to \<open>dupes\<close> when the hashes are pairwise distinct and not in the index.\<close>

lemma run_visit_no_dupes:
  assumes "run_loop (visit dec md5 fs) st es = Inr st'"
    and "distinct (file_hashes dec md5 fs es)"
    and "dom (fst st) \<inter> seen_hashes dec md5 fs es = {}"
  shows "snd st' = snd st"
  using assms
proof (induction es arbitrary: st)
  case Nil
  then show ?case by simp
next
  case (Cons e es)
  from Cons.prems(1) obtain s1 where s1: "visit dec md5 fs st e = Inr s1"
    "run_loop (visit dec md5 fs) s1 es = Inr st'"
    by (rule run_loop_Cons_Inr)
  from Cons.prems(3) have old: "dom (fst st) \<inter> seen_hashes dec md5 fs es = {}"
    using seen_hashes_Cons[of dec md5 fs e es] by auto
  show ?case
  proof (cases rule: visit_cases[of fs e dec md5 st])
    case skip
    with s1(1) have "s1 = st" by simp
    moreover from skip Cons.prems(2) have "distinct (file_hashes dec md5 fs es)"
      by (simp add: file_hashes_skip)
    ultimately show ?thesis using Cons.IH[of st] s1(2) old by simp
  next
    case (raise err)
    with s1(1) show ?thesis by simp
  next
    case (new h)
    with s1(1) have s1eq: "s1 = ((fst st)(h \<mapsto> fst e), snd st)" by simp
    from new Cons.prems(2) have d: "distinct (file_hashes dec md5 fs es)"
      and nin: "h \<notin> seen_hashes dec md5 fs es"
      by (simp_all add: file_hashes_hashed seen_hashes_def)
    from s1eq old nin have "dom (fst s1) \<inter> seen_hashes dec md5 fs es = {}"
      by auto
    from Cons.IH[OF s1(2) d this] s1eq show ?thesis by simp
  next
    case (dup h v)
    then have "h \<in> dom (fst st)" and "h \<in> seen_hashes dec md5 fs (e # es)"
      by (auto simp: in_seen_hashes)
    with Cons.prems(3) show ?thesis by auto
  qed
qed

text \<open>The index keeps what it held and adds, for a new hash, the index of the first file with it.\<close>

lemma run_visit_hash_keys:
  "run_loop (visit dec md5 fs) st es = Inr st' \<Longrightarrow>
   fst st' h =
     (case fst st h of
        Some v \<Rightarrow> Some v
      | None \<Rightarrow> map_option fst
          (find (\<lambda>e. is_file fs (snd e) \<and> fingerprint dec md5 fs (snd e) = Inr h) es))"
proof (induction es arbitrary: st)
  case Nil
  then show ?case by (simp split: option.splits)
next
  case (Cons e es)
  from Cons.prems obtain s1 where s1: "visit dec md5 fs st e = Inr s1"
    "run_loop (visit dec md5 fs) s1 es = Inr st'"
    by (rule run_loop_Cons_Inr)
  note IH = Cons.IH[OF s1(2)]
  show ?case
  proof (cases rule: visit_cases[of fs e dec md5 st])
    case skip
    with s1(1) IH show ?thesis by (auto split: option.splits)
  next
    case (raise err)
    with s1(1) show ?thesis by simp
  next
    case (new h')
    with s1(1) IH show ?thesis by (auto split: option.splits)
  next
    case (dup h' v)
    with s1(1) IH show ?thesis by (auto split: option.splits)
  qed
qed

text \<open>Every element of \<open>dupes\<close> that the iteration adds is a display string for a visited file.\<close>

lemma dupes_form_gen:
  "run_loop (visit dec md5 fs) st es = Inr st' \<Longrightarrow> (i, s) \<in> set (snd st') \<Longrightarrow>
     (i, s) \<in> set (snd st) \<or>
     (\<exists>v p h. s = str_nat v @ '': '' @ p \<and> (i, p) \<in> set es \<and> is_file fs p \<and>
        fingerprint dec md5 fs p = Inr h \<and> fst st' h = Some v)"
proof (induction es arbitrary: i s st' rule: rev_induct)
  case Nil
  then show ?case by simp
next
  case (snoc e es)
  from snoc.prems(1) obtain S where S: "run_loop (visit dec md5 fs) st es = Inr S"
    and step: "visit dec md5 fs S e = Inr st'"
    by (rule run_loop_snoc_Inr)
  have old: "(i, s) \<in> set (snd st) \<or>
     (\<exists>v p h. s = str_nat v @ '': '' @ p \<and> (i, p) \<in> set (es @ [e]) \<and> is_file fs p \<and>
        fingerprint dec md5 fs p = Inr h \<and> fst st' h = Some v)" if "(i, s) \<in> set (snd S)"
  proof -
    from snoc.IH[OF S that] show ?thesis
    proof
      assume "(i, s) \<in> set (snd st)"
      then show ?thesis ..
    next
      assume "\<exists>v p h. s = str_nat v @ '': '' @ p \<and> (i, p) \<in> set es \<and> is_file fs p \<and>
        fingerprint dec md5 fs p = Inr h \<and> fst S h = Some v"
      then obtain v p h where "s = str_nat v @ '': '' @ p" "(i, p) \<in> set es" "is_file fs p"
        "fingerprint dec md5 fs p = Inr h" "fst S h = Some v" by blast
      moreover from this have "fst st' h = Some v"
        using visit_hash_keys_mono[OF step] by simp
      ultimately show ?thesis by auto
    qed
  qed
  show ?case
  proof (cases rule: visit_cases[of fs e dec md5 S])
    case skip
    with step have "snd st' = snd S" by simp
    with snoc.prems(2) have "(i, s) \<in> set (snd S)" by simp
    then show ?thesis by (rule old)
  next
    case (raise err)
    with step show ?thesis by simp
  next
    case (new h)
    with step have "snd st' = snd S" by auto
    with snoc.prems(2) have "(i, s) \<in> set (snd S)" by simp
    then show ?thesis by (rule old)
  next
    case (dup h v)
    with step have st': "st' = (fst S, snd S @ [(fst e, str_nat v @ '': '' @ snd e)])" by simp
    with snoc.prems(2) have "(i, s) \<in> set (snd S) \<or> (i, s) = (fst e, str_nat v @ '': '' @ snd e)"
      by auto
    then show ?thesis
    proof
      assume "(i, s) \<in> set (snd S)"
      then show ?thesis by (rule old)
    next
      assume eq: "(i, s) = (fst e, str_nat v @ '': '' @ snd e)"
      then have "s = str_nat v @ '': '' @ snd e" "(i, snd e) \<in> set (es @ [e])" by auto
      moreover have "is_file fs (snd e)" "fingerprint dec md5 fs (snd e) = Inr h" "fst st' h = Some v"
        using dup st' by simp_all
      ultimately show ?thesis by blast
    qed
  qed
qed

subsection \<open>The deletion loop\<close>

lemma remove_loop_append:
  "remove_loop fs (pre @ post) =
     (case remove_loop fs pre of
        (None, fs1) \<Rightarrow> remove_loop fs1 post
      | (Some e, fs1) \<Rightarrow> (Some e, fs1))"
  by (induction fs pre rule: remove_loop.induct) (auto split: sum.splits)

lemma os_remove_error_filename: "os_remove fs p = Inl e \<Longrightarrow> error_filename e = Some p"
  by (auto simp: os_remove_def split: option.splits node.splits if_splits)

text \<open>
  A cut path that ends in a slash: for a duplicate named \<open>: x.png\<close> in folder \<open>no\<close> the
  second piece of the display string is the folder's path with a slash, and \<open>os.remove\<close>
  fails on it with the error for a directory.
\<close>

lemma cut_path_with_slash_example:
  "split_second ''0: /w/data/brain_tumor_dataset/raw_images/no/: x.png'' =
     Inr ''/w/data/brain_tumor_dataset/raw_images/no/'' \<and>
   os_remove ex_colon ''/w/data/brain_tumor_dataset/raw_images/no/'' =
     Inl (IsADirectoryError ''/w/data/brain_tumor_dataset/raw_images/no/'')"
proof -
  have "split_second ''0: /w/data/brain_tumor_dataset/raw_images/no/: x.png'' =
      Inr ''/w/data/brain_tumor_dataset/raw_images/no/''"
    by code_simp
  moreover have "trailing_slash ''/w/data/brain_tumor_dataset/raw_images/no/''"
    and "butlast ''/w/data/brain_tumor_dataset/raw_images/no/'' =
      ''/w/data/brain_tumor_dataset/raw_images/no''"
    by code_simp+
  then have "os_remove ex_colon ''/w/data/brain_tumor_dataset/raw_images/no/'' =
      Inl (IsADirectoryError ''/w/data/brain_tumor_dataset/raw_images/no/'')"
    by (simp add: os_remove_def ex_colon_def)
  ultimately show ?thesis by simp
qed

subsection \<open>Scans in which no path contains the separator\<close>

text \<open>
  The lemmas of this subsection describe the function on the inputs where the scan
  returns and the display string gives the path back: \<open>cv2.imread\<close> raises on no scanned
  file, no scanned file's path contains \<open>": "\<close> or ends in a slash, no scanned file is
  protected, and no path is listed twice. There the call unlinks exactly the later copies, keeps for every
  fingerprint the file seen first, and a second call finds nothing.
\<close>

lemma case_sum_mem:
  "(case x of Inl err \<Rightarrow> False | Inr h \<Rightarrow> h \<in> A) \<longleftrightarrow> (\<exists>h. x = Inr h \<and> h \<in> A)"
  by (cases x) auto

lemma later_copies_snoc:
  "later_copies dec md5 fs (es @ [e]) =
     later_copies dec md5 fs es @
       (if is_file fs (snd e) \<and>
           (case fingerprint dec md5 fs (snd e) of
              Inl err \<Rightarrow> False
            | Inr h \<Rightarrow> h \<in> seen_hashes dec md5 fs es)
        then [snd e] else [])"
proof -
  let ?P = "\<lambda>xs k. is_file fs (snd (xs ! k)) \<and>
      (case fingerprint dec md5 fs (snd (xs ! k)) of
         Inl err \<Rightarrow> False
       | Inr h \<Rightarrow> h \<in> seen_hashes dec md5 fs (take k xs))"
  have old: "filter (?P (es @ [e])) [0..<length es] = filter (?P es) [0..<length es]"
    by (rule filter_cong) (auto simp: nth_append case_sum_mem)
  have "map (\<lambda>k. snd ((es @ [e]) ! k)) (filter (?P es) [0..<length es]) =
      map (\<lambda>k. snd (es ! k)) (filter (?P es) [0..<length es])"
    by (rule map_cong) (auto simp: nth_append)
  with old have front: "map (\<lambda>k. snd ((es @ [e]) ! k)) (filter (?P (es @ [e])) [0..<length es]) =
      later_copies dec md5 fs es"
    by (simp add: later_copies_def)
  have last: "map (\<lambda>k. snd ((es @ [e]) ! k)) (filter (?P (es @ [e])) [length es]) =
      (if is_file fs (snd e) \<and>
          (case fingerprint dec md5 fs (snd e) of
             Inl err \<Rightarrow> False
           | Inr h \<Rightarrow> h \<in> seen_hashes dec md5 fs es)
       then [snd e] else [])"
    by (simp add: case_sum_mem)
  have "later_copies dec md5 fs (es @ [e]) =
      map (\<lambda>k. snd ((es @ [e]) ! k)) (filter (?P (es @ [e])) ([0..<length es] @ [length es]))"
    by (simp add: later_copies_def)
  also have "\<dots> = map (\<lambda>k. snd ((es @ [e]) ! k)) (filter (?P (es @ [e])) [0..<length es]) @
      map (\<lambda>k. snd ((es @ [e]) ! k)) (filter (?P (es @ [e])) [length es])"
    by (simp only: filter_append map_append)
  finally show ?thesis
    by (simp only: front last)
qed

lemma later_copies_Nil: "later_copies dec md5 fs [] = []"
  by (simp add: later_copies_def)

lemma later_copies_subset:
  "set (later_copies dec md5 fs es) \<subseteq> {p \<in> snd ` set es. is_file fs p}"
  by (auto simp: later_copies_def)

lemma later_copies_distinct:
  "distinct (map snd es) \<Longrightarrow> distinct (later_copies dec md5 fs es)"
proof (induction es rule: rev_induct)
  case Nil
  then show ?case by (simp add: later_copies_Nil)
next
  case (snoc e es)
  then have "snd e \<notin> snd ` set es" "distinct (later_copies dec md5 fs es)" by auto
  moreover have "set (later_copies dec md5 fs es) \<subseteq> snd ` set es"
    using later_copies_subset[of dec md5 fs es] by auto
  ultimately show ?case by (auto simp: later_copies_snoc)
qed

text \<open>
  When no scanned file's path contains the separator, the paths that the deletion loop
  takes from \<open>dupes\<close> are the later copies, in the order of the scan.
\<close>

lemma scan_targets:
  assumes "\<forall>e \<in> set es. is_file fs (snd e) \<longrightarrow> \<not> sublist '': '' (snd e)"
    and "run_loop (visit dec md5 fs) (Map.empty, []) es = Inr st'"
  shows "map (\<lambda>d. split_second (snd d)) (snd st') = map Inr (later_copies dec md5 fs es)"
  using assms
proof (induction es arbitrary: st' rule: rev_induct)
  case Nil
  then show ?case by (auto simp: later_copies_Nil)
next
  case (snoc e es)
  from snoc.prems(2) obtain S where S: "run_loop (visit dec md5 fs) (Map.empty, []) es = Inr S"
    and step: "visit dec md5 fs S e = Inr st'"
    by (rule run_loop_snoc_Inr)
  have IH: "map (\<lambda>d. split_second (snd d)) (snd S) = map Inr (later_copies dec md5 fs es)"
    using snoc.IH[OF _ S] snoc.prems(1) by simp
  have dom: "dom (fst S) = seen_hashes dec md5 fs es"
    using run_visit_dom[OF S] by simp
  show ?case
  proof (cases rule: visit_cases[of fs e dec md5 S])
    case skip
    with step IH show ?thesis by (simp add: later_copies_snoc)
  next
    case (raise err)
    with step show ?thesis by simp
  next
    case (new h)
    then have "h \<notin> seen_hashes dec md5 fs es"
      using dom by auto
    with new step IH show ?thesis by (auto simp: later_copies_snoc)
  next
    case (dup h v)
    then have "h \<in> seen_hashes dec md5 fs es"
      using dom by auto
    moreover have "split_second (str_nat v @ '': '' @ snd e) = Inr (snd e)"
      using snoc.prems(1) dup(1) by (intro split_second_plain) simp
    ultimately show ?thesis using dup step IH by (auto simp: later_copies_snoc)
  qed
qed

text \<open>Unlinking distinct, unprotected regular files one after the other removes exactly these.\<close>

lemma remove_loop_all:
  assumes "map (\<lambda>d. split_second (snd d)) ds = map Inr ps"
    and "distinct ps"
    and "\<forall>p \<in> set ps. is_file fs p \<and> p \<notin> protected fs \<and> \<not> trailing_slash p"
  shows "remove_loop fs ds = (None, fs\<lparr>nodes := (\<lambda>q. if q \<in> set ps then None else nodes fs q)\<rparr>)"
  using assms
proof (induction ds arbitrary: fs ps)
  case Nil
  then show ?case by simp
next
  case (Cons d ds)
  then obtain p ps' where ps: "ps = p # ps'" by (cases ps) auto
  obtain si di where d: "d = (si, di)" by (cases d)
  from Cons.prems(1) ps d have t: "split_second di = Inr p"
    and rest: "map (\<lambda>d. split_second (snd d)) ds = map Inr ps'" by auto
  from Cons.prems(3) ps obtain b where b: "nodes fs p = Some (File b)" "p \<notin> protected fs"
    "\<not> trailing_slash p"
    by (auto simp: is_file_def split: option.splits node.splits)
  let ?fs' = "fs\<lparr>nodes := (nodes fs)(p := None)\<rparr>"
  have rm: "os_remove fs p = Inr ?fs'"
    using b by (simp add: os_remove_def)
  have "\<forall>q \<in> set ps'. is_file ?fs' q \<and> q \<notin> protected ?fs' \<and> \<not> trailing_slash q"
    using Cons.prems(2,3) ps by (auto simp: is_file_def)
  moreover have "distinct ps'" using Cons.prems(2) ps by simp
  ultimately have "remove_loop ?fs' ds =
      (None, ?fs'\<lparr>nodes := (\<lambda>q. if q \<in> set ps' then None else nodes ?fs' q)\<rparr>)"
    using Cons.IH[OF rest] by blast
  moreover have "(\<lambda>q. if q \<in> set ps' then None else nodes ?fs' q) =
      (\<lambda>q. if q \<in> set ps then None else nodes fs q)"
    using ps by auto
  ultimately show ?case using d t rm by simp
qed

text \<open>The hashes of a scan that returns, read off the scanned files.\<close>

lemma file_hashes_paths:
  "\<forall>e \<in> set es. is_file fs (snd e) \<longrightarrow> \<not> refused dec fs (snd e) \<Longrightarrow>
   map Inr (file_hashes dec md5 fs es) =
   map (fingerprint dec md5 fs) (filter (is_file fs) (map snd es))"
proof (induction es)
  case Nil
  then show ?case by (simp add: file_hashes_Nil)
next
  case (Cons e es)
  then have IH: "map Inr (file_hashes dec md5 fs es) =
      map (fingerprint dec md5 fs) (filter (is_file fs) (map snd es))" by simp
  show ?case
  proof (cases "is_file fs (snd e)")
    case False
    with IH show ?thesis by (simp add: file_hashes_skip)
  next
    case True
    with Cons.prems obtain h where "fingerprint dec md5 fs (snd e) = Inr h"
      using not_refused_iff[of dec fs "snd e" md5] by auto
    with True IH show ?thesis by (simp add: file_hashes_hashed)
  qed
qed

lemma scan_returns:
  "(\<exists>st. scan dec md5 fs image_folder folders = Inr st) \<longleftrightarrow>
   (\<forall>p \<in> set (scanned_files fs image_folder folders). \<not> refused dec fs p)"
  using run_visit_returns[of dec md5 fs "(Map.empty, [])" "entries fs image_folder folders"]
  by (auto simp: scan_entries scanned_files_def)

lemma no_dupes_run:
  assumes "\<forall>p \<in> set (scanned_files fs (image_folder_of cwd_parent) class_folders). \<not> refused dec fs p"
    and "distinct (map (fingerprint dec md5 fs) (scanned_files fs (image_folder_of cwd_parent) class_folders))"
  shows "remove_duplicate_images dec md5 cwd_parent fs =
         \<lparr>printed_total = Some 0, raised = None, fs_after = fs\<rparr>"
proof -
  let ?es = "entries fs (image_folder_of cwd_parent) class_folders"
  from assms(1) obtain st where st: "scan dec md5 fs (image_folder_of cwd_parent) class_folders = Inr st"
    using scan_returns[of dec md5 fs "image_folder_of cwd_parent" class_folders] by blast
  have nr: "\<forall>e \<in> set ?es. is_file fs (snd e) \<longrightarrow> \<not> refused dec fs (snd e)"
    using assms(1) by (auto simp: scanned_files_def)
  have "distinct (map Inr (file_hashes dec md5 fs ?es) :: (py_error + string) list)"
    using assms(2) by (simp only: file_hashes_paths[OF nr] scanned_files_def)
  then have d: "distinct (file_hashes dec md5 fs ?es)"
    by (simp add: distinct_map)
  from st have "run_loop (visit dec md5 fs) (Map.empty, []) ?es = Inr st"
    by (simp add: scan_entries)
  from run_visit_no_dupes[OF this d] have "snd st = []" by simp
  with st show ?thesis
    by (cases st) (simp add: remove_duplicate_images_def Let_def)
qed

lemma seen_hashes_take:
  "h \<in> seen_hashes dec md5 fs (take k es) \<longleftrightarrow>
     (\<exists>j. j < k \<and> j < length es \<and> is_file fs (snd (es ! j)) \<and>
          fingerprint dec md5 fs (snd (es ! j)) = Inr h)"
proof
  assume "h \<in> seen_hashes dec md5 fs (take k es)"
  then obtain e where e: "e \<in> set (take k es)" "is_file fs (snd e)"
    "fingerprint dec md5 fs (snd e) = Inr h"
    by (auto simp: in_seen_hashes)
  then obtain j where "j < length (take k es)" "take k es ! j = e"
    by (auto simp: in_set_conv_nth)
  with e show "\<exists>j. j < k \<and> j < length es \<and> is_file fs (snd (es ! j)) \<and>
      fingerprint dec md5 fs (snd (es ! j)) = Inr h"
    by (intro exI[of _ j]) auto
next
  assume "\<exists>j. j < k \<and> j < length es \<and> is_file fs (snd (es ! j)) \<and>
      fingerprint dec md5 fs (snd (es ! j)) = Inr h"
  then obtain j where j: "j < k" "j < length es" "is_file fs (snd (es ! j))"
    "fingerprint dec md5 fs (snd (es ! j)) = Inr h" by blast
  then have "es ! j \<in> set (take k es)"
    by (auto simp: in_set_conv_nth intro!: exI[of _ j])
  with j show "h \<in> seen_hashes dec md5 fs (take k es)"
    by (auto simp: in_seen_hashes)
qed

lemma later_copies_nth:
  assumes "distinct (map snd es)" and "k < length es"
  shows "snd (es ! k) \<in> set (later_copies dec md5 fs es) \<longleftrightarrow>
         is_file fs (snd (es ! k)) \<and>
         (\<exists>h. fingerprint dec md5 fs (snd (es ! k)) = Inr h \<and>
              h \<in> seen_hashes dec md5 fs (take k es))"
proof
  assume "snd (es ! k) \<in> set (later_copies dec md5 fs es)"
  then obtain k' where k': "k' < length es" "snd (es ! k') = snd (es ! k)"
    "is_file fs (snd (es ! k'))"
    "\<exists>h. fingerprint dec md5 fs (snd (es ! k')) = Inr h \<and> h \<in> seen_hashes dec md5 fs (take k' es)"
    unfolding later_copies_def case_sum_mem by auto
  from k'(1,2) assms have "map snd es ! k' = map snd es ! k" by simp
  with nth_eq_iff_index_eq[OF assms(1), of k' k] assms(2) k'(1) have "k' = k"
    by simp
  with k' show "is_file fs (snd (es ! k)) \<and>
      (\<exists>h. fingerprint dec md5 fs (snd (es ! k)) = Inr h \<and>
           h \<in> seen_hashes dec md5 fs (take k es))" by simp
next
  assume "is_file fs (snd (es ! k)) \<and>
      (\<exists>h. fingerprint dec md5 fs (snd (es ! k)) = Inr h \<and>
           h \<in> seen_hashes dec md5 fs (take k es))"
  with assms(2) show "snd (es ! k) \<in> set (later_copies dec md5 fs es)"
    unfolding later_copies_def case_sum_mem by (auto intro!: image_eqI[of _ _ k])
qed

text \<open>A scanned file is not a later copy exactly when it is the first file with its hash.\<close>

lemma survivor_is_first_seen:
  assumes "distinct (map snd es)" and "(i, p) \<in> set es" and "is_file fs p"
    and "fingerprint dec md5 fs p = Inr h"
  shows "p \<notin> set (later_copies dec md5 fs es) \<longleftrightarrow>
         find (\<lambda>e. is_file fs (snd e) \<and> fingerprint dec md5 fs (snd e) = Inr h) es = Some (i, p)"
proof -
  let ?P = "\<lambda>e. is_file fs (snd e) \<and> fingerprint dec md5 fs (snd e) = Inr h"
  from assms(2) obtain k where k: "k < length es" "es ! k = (i, p)"
    by (auto simp: in_set_conv_nth)
  have pk: "snd (es ! k) = p" using k by simp
  show ?thesis
  proof
    assume "p \<notin> set (later_copies dec md5 fs es)"
    with later_copies_nth[OF assms(1) k(1), of dec md5 fs] pk assms(3,4)
    have "h \<notin> seen_hashes dec md5 fs (take k es)" by simp
    then have "\<forall>j<k. \<not> ?P (es ! j)"
      using k(1) by (auto simp: seen_hashes_take)
    with k assms(3,4) show "find ?P es = Some (i, p)"
      by (auto simp: find_Some_iff intro!: exI[of _ k])
  next
    assume "find ?P es = Some (i, p)"
    then obtain k' where k': "k' < length es" "es ! k' = (i, p)" "\<forall>j<k'. \<not> ?P (es ! j)"
      by (auto simp: find_Some_iff)
    then have "h \<notin> seen_hashes dec md5 fs (take k' es)"
      by (auto simp: seen_hashes_take)
    with later_copies_nth[OF assms(1) k'(1), of dec md5 fs] k'(2) assms(4)
    show "p \<notin> set (later_copies dec md5 fs es)" by simp
  qed
qed

lemma one_survivor_per_fingerprint:
  assumes "distinct (map snd es)" and "h \<in> seen_hashes dec md5 fs es"
  shows "\<exists>!p. p \<in> set (filter (is_file fs) (map snd es)) \<and>
              p \<notin> set (later_copies dec md5 fs es) \<and> fingerprint dec md5 fs p = Inr h"
proof -
  let ?P = "\<lambda>e. is_file fs (snd e) \<and> fingerprint dec md5 fs (snd e) = Inr h"
  from assms(2) have "\<exists>e \<in> set es. ?P e"
    by (simp add: in_seen_hashes)
  then have "find ?P es \<noteq> None"
    unfolding find_None_iff by blast
  then obtain e where e: "find ?P es = Some e"
    by blast
  then have pe: "?P e" and mem: "e \<in> set es"
    by (auto simp: find_Some_iff)
  obtain i p where ip: "e = (i, p)" by (cases e)
  have surv: "p \<notin> set (later_copies dec md5 fs es)"
    using survivor_is_first_seen[OF assms(1), of i p fs dec md5 h] e pe mem ip by simp
  show ?thesis
  proof (rule ex1I[of _ p])
    show "p \<in> set (filter (is_file fs) (map snd es)) \<and>
        p \<notin> set (later_copies dec md5 fs es) \<and> fingerprint dec md5 fs p = Inr h"
      using surv pe mem ip by force
  next
    fix p'
    assume a: "p' \<in> set (filter (is_file fs) (map snd es)) \<and>
        p' \<notin> set (later_copies dec md5 fs es) \<and> fingerprint dec md5 fs p' = Inr h"
    then obtain i' where i': "(i', p') \<in> set es" by auto
    from a have f: "is_file fs p'" and h: "fingerprint dec md5 fs p' = Inr h" by simp_all
    from survivor_is_first_seen[OF assms(1) i' f h] a e ip
    show "p' = p" by simp
  qed
qed

lemma dedup_without_separator:
  assumes "\<forall>p \<in> set (scanned_files fs (image_folder_of cwd_parent) class_folders).
             \<not> refused dec fs p \<and> \<not> sublist '': '' p \<and> p \<notin> protected fs \<and>
             \<not> trailing_slash p"
    and "distinct (map snd (entries fs (image_folder_of cwd_parent) class_folders))"
  shows "remove_duplicate_images dec md5 cwd_parent fs =
         \<lparr>printed_total =
            Some (length (later_copies dec md5 fs (entries fs (image_folder_of cwd_parent) class_folders))),
          raised = None,
          fs_after = fs\<lparr>nodes := (\<lambda>q. if q \<in> set (later_copies dec md5 fs
                         (entries fs (image_folder_of cwd_parent) class_folders))
                       then None else nodes fs q)\<rparr>\<rparr>"
proof -
  let ?es = "entries fs (image_folder_of cwd_parent) class_folders"
  let ?ps = "later_copies dec md5 fs ?es"
  from assms(1) obtain st where st: "scan dec md5 fs (image_folder_of cwd_parent) class_folders = Inr st"
    using scan_returns[of dec md5 fs "image_folder_of cwd_parent" class_folders] by blast
  then have run: "run_loop (visit dec md5 fs) (Map.empty, []) ?es = Inr st"
    by (simp add: scan_entries)
  have "\<forall>e \<in> set ?es. is_file fs (snd e) \<longrightarrow> \<not> sublist '': '' (snd e)"
    using assms(1) by (auto simp: scanned_files_def)
  from scan_targets[OF this run]
  have t: "map (\<lambda>d. split_second (snd d)) (snd st) = map Inr ?ps" .
  then have len: "length (snd st) = length ?ps"
    using length_map by metis
  have "\<forall>p \<in> set ?ps. is_file fs p \<and> p \<notin> protected fs \<and> \<not> trailing_slash p"
    using later_copies_subset[of dec md5 fs ?es] assms(1) by (auto simp: scanned_files_def)
  with t later_copies_distinct[OF assms(2), of dec md5 fs]
  have "remove_loop fs (snd st) = (None, fs\<lparr>nodes := (\<lambda>q. if q \<in> set ?ps then None else nodes fs q)\<rparr>)"
    by (intro remove_loop_all) auto
  with len st show ?thesis
    by (cases st) (simp add: remove_duplicate_images_def Let_def)
qed

lemma glob_star_after:
  assumes "\<forall>p \<in> D. is_file fs p"
  shows "glob_star (fs\<lparr>nodes := (\<lambda>q. if q \<in> D then None else nodes fs q)\<rparr>) d =
         filter (\<lambda>p. p \<notin> D) (glob_star fs d)"
proof (cases "d \<in> D")
  case True
  with assms have "is_file fs d" by simp
  then have "glob_star fs d = []"
    by (auto simp: is_file_def glob_star_def split: option.splits node.splits)
  with True show ?thesis by (simp add: glob_star_def)
next
  case False
  show ?thesis
  proof (cases "nodes fs d")
    case None
    with False show ?thesis by (simp add: glob_star_def)
  next
    case (Some nd)
    show ?thesis
    proof (cases nd)
      case (File b)
      with Some False show ?thesis by (simp add: glob_star_def)
    next
      case (Dir names)
      have "[joinpath d n. n \<leftarrow> names, (if joinpath d n \<in> D then None else nodes fs (joinpath d n)) \<noteq> None] =
          filter (\<lambda>p. p \<notin> D) [joinpath d n. n \<leftarrow> names, nodes fs (joinpath d n) \<noteq> None]"
        by (induction names) auto
      with Some Dir False show ?thesis by (simp add: glob_star_def)
    qed
  qed
qed

lemma entries_paths:
  "map snd (entries fs image_folder folders) =
   concat (map (\<lambda>f. glob_star fs (joinpath image_folder f)) folders)"
  by (induction folders) (simp_all add: entries_def)

lemma scanned_files_after:
  assumes "\<forall>p \<in> D. is_file fs p"
  shows "scanned_files (fs\<lparr>nodes := (\<lambda>q. if q \<in> D then None else nodes fs q)\<rparr>) image_folder folders =
         filter (\<lambda>p. p \<notin> D) (scanned_files fs image_folder folders)"
proof -
  let ?fs' = "fs\<lparr>nodes := (\<lambda>q. if q \<in> D then None else nodes fs q)\<rparr>"
  have "map snd (entries ?fs' image_folder folders) =
      filter (\<lambda>p. p \<notin> D) (map snd (entries fs image_folder folders))"
    by (simp add: entries_paths glob_star_after[OF assms] filter_concat comp_def)
  moreover have "is_file ?fs' p \<longleftrightarrow> is_file fs p \<and> p \<notin> D" for p
    by (simp add: is_file_def)
  ultimately show ?thesis
    by (auto simp: scanned_files_def intro: filter_cong)
qed

lemma second_run_without_separator:
  assumes "\<forall>p \<in> set (scanned_files fs (image_folder_of cwd_parent) class_folders).
             \<not> refused dec fs p \<and> \<not> sublist '': '' p \<and> p \<notin> protected fs \<and>
             \<not> trailing_slash p"
    and "distinct (map snd (entries fs (image_folder_of cwd_parent) class_folders))"
  shows "remove_duplicate_images dec md5 cwd_parent
           (fs_after (remove_duplicate_images dec md5 cwd_parent fs)) =
         \<lparr>printed_total = Some 0, raised = None,
          fs_after = fs_after (remove_duplicate_images dec md5 cwd_parent fs)\<rparr>"
proof -
  let ?es = "entries fs (image_folder_of cwd_parent) class_folders"
  let ?files = "scanned_files fs (image_folder_of cwd_parent) class_folders"
  let ?D = "set (later_copies dec md5 fs ?es)"
  let ?fs' = "fs\<lparr>nodes := (\<lambda>q. if q \<in> ?D then None else nodes fs q)\<rparr>"
  have after: "fs_after (remove_duplicate_images dec md5 cwd_parent fs) = ?fs'"
    by (simp add: dedup_without_separator[OF assms])
  have D: "\<forall>p \<in> ?D. is_file fs p"
    using later_copies_subset[of dec md5 fs ?es] by auto
  have files': "scanned_files ?fs' (image_folder_of cwd_parent) class_folders =
      filter (\<lambda>p. p \<notin> ?D) ?files"
    by (rule scanned_files_after[OF D])
  have rd: "cv2_imread dec ?fs' p = cv2_imread dec fs p" if "p \<notin> ?D" for p
    using that by (simp add: cv2_imread_def)
  have fp: "fingerprint dec md5 ?fs' p = fingerprint dec md5 fs p" if "p \<notin> ?D" for p
    using rd[OF that] by (simp add: fingerprint_def)
  have nr: "\<forall>p \<in> set (scanned_files ?fs' (image_folder_of cwd_parent) class_folders).
      \<not> refused dec ?fs' p"
    unfolding files' using assms(1) rd by (auto simp: refused_def)
  have "distinct ?files"
    using assms(2) by (simp add: scanned_files_def)
  then have d: "distinct (filter (\<lambda>p. p \<notin> ?D) ?files)" by simp
  have inj: "inj_on (fingerprint dec md5 fs) (set (filter (\<lambda>p. p \<notin> ?D) ?files))"
  proof (rule inj_onI)
    fix p p'
    assume p: "p \<in> set (filter (\<lambda>p. p \<notin> ?D) ?files)"
      and p': "p' \<in> set (filter (\<lambda>p. p \<notin> ?D) ?files)"
      and eq: "fingerprint dec md5 fs p = fingerprint dec md5 fs p'"
    from p assms(1) obtain h where h: "fingerprint dec md5 fs p = Inr h"
      using not_refused_iff[of dec fs p md5] by auto
    with p have "h \<in> seen_hashes dec md5 fs ?es"
      by (auto simp: scanned_files_def in_seen_hashes)
    from one_survivor_per_fingerprint[OF assms(2) this] p p' eq h
    show "p = p'"
      by (auto simp: scanned_files_def)
  qed
  have "map (fingerprint dec md5 ?fs') (filter (\<lambda>p. p \<notin> ?D) ?files) =
      map (fingerprint dec md5 fs) (filter (\<lambda>p. p \<notin> ?D) ?files)"
    by (rule map_cong) (auto simp: fp)
  moreover have "distinct (map (fingerprint dec md5 fs) (filter (\<lambda>p. p \<notin> ?D) ?files))"
    using d inj by (simp add: distinct_map)
  ultimately have "distinct (map (fingerprint dec md5 ?fs')
      (scanned_files ?fs' (image_folder_of cwd_parent) class_folders))"
    by (simp only: files')
  from no_dupes_run[OF nr this] after show ?thesis
    by simp
qed

lemma dedup_without_separator_example:
  "remove_duplicate_images tag_decode demo_digest ''/w'' ex_plain =
     \<lparr>printed_total = Some 2, raised = None,
      fs_after = ex_plain\<lparr>nodes := (\<lambda>q.
        if q \<in> {''/w/data/brain_tumor_dataset/raw_images/no/y.png'',
                 ''/w/data/brain_tumor_dataset/raw_images/yes/z.png''}
        then None else nodes ex_plain q)\<rparr>\<rparr>"
proof -
  have f: "scanned_files ex_plain (image_folder_of ''/w'') class_folders =
      [''/w/data/brain_tumor_dataset/raw_images/no/x.png'',
       ''/w/data/brain_tumor_dataset/raw_images/no/y.png'',
       ''/w/data/brain_tumor_dataset/raw_images/yes/z.png'']"
    by code_simp
  have h1: "\<forall>p \<in> set (scanned_files ex_plain (image_folder_of ''/w'') class_folders).
      \<not> refused tag_decode ex_plain p \<and> \<not> sublist '': '' p \<and> p \<notin> protected ex_plain \<and>
      \<not> trailing_slash p"
    unfolding f by code_simp
  have h2: "distinct (map snd (entries ex_plain (image_folder_of ''/w'') class_folders))"
    by code_simp
  have l: "later_copies tag_decode demo_digest ex_plain
      (entries ex_plain (image_folder_of ''/w'') class_folders) =
      [''/w/data/brain_tumor_dataset/raw_images/no/y.png'',
       ''/w/data/brain_tumor_dataset/raw_images/yes/z.png'']"
    by code_simp
  from dedup_without_separator[OF h1 h2, of demo_digest] show ?thesis
    unfolding l by simp
qed

subsection \<open>Reading a scan's result\<close>

lemma dupes_of_Inr:
  assumes "dupes_of r = Inr ds"
  obtains hk where "r = Inr (hk, ds)"
  using assms by (cases r) (auto simp: dupes_of_def)

lemma index_at_Inr: "r = Inr st \<Longrightarrow> index_at r h = Inr (fst st h)"
  by (simp add: index_at_def)

section \<open>The claims\<close>

subsection \<open>Deletion leaves one file per fingerprint\<close>

text \<open>
  C1. After a scan every file whose fingerprint was seen earlier is deleted and the
  first-seen file is kept, so exactly one file survives per fingerprint. The function
  does not do this for a duplicate whose path contains \<open>": "\<close>. On \<open>ex_colon\<close> the scan
  marks \<open>a: b.png\<close> as a duplicate of \<open>c.png\<close> and prints 1; the deletion then unlinks the
  path cut at the separator, which is the unrelated file \<open>a\<close>. The call ends without an
  exception, both files with the same fingerprint survive, and the only file with the
  other fingerprint is gone. Where no scanned path contains the separator the function
  does what the claim says (\<open>dedup_without_separator\<close>, \<open>one_survivor_per_fingerprint\<close>,
  \<open>survivor_is_first_seen\<close>).
\<close>

theorem colon_path_removes_wrong_file:
  "printed_total (remove_duplicate_images tag_decode demo_digest ''/w'' ex_colon) = Some 1 \<and>
   raised (remove_duplicate_images tag_decode demo_digest ''/w'' ex_colon) = None \<and>
   map (nodes (fs_after (remove_duplicate_images tag_decode demo_digest ''/w'' ex_colon)))
     [''/w/data/brain_tumor_dataset/raw_images/no/c.png'',
      ''/w/data/brain_tumor_dataset/raw_images/no/a: b.png'',
      ''/w/data/brain_tumor_dataset/raw_images/no/a''] =
     [Some (File [1, 7, 7]), Some (File [2, 7, 7]), None] \<and>
   fingerprint tag_decode demo_digest ex_colon ''/w/data/brain_tumor_dataset/raw_images/no/c.png'' =
   fingerprint tag_decode demo_digest ex_colon ''/w/data/brain_tumor_dataset/raw_images/no/a: b.png''"
  by code_simp

subsection \<open>A file that does not decode\<close>

text \<open>
  C2, as amended. A file that fails to decode ends the run only when \<open>cv2.imread\<close> raises
  on it: the scan then ends with an exception (the one of this file when \<open>cv2.imread\<close>
  raised on no regular file before it), and a call whose scan raises ends with that
  exception before anything is printed or deleted. A file for which \<open>cv2.imread\<close> returns
  \<open>None\<close> does not end the run: the array made from \<open>None\<close> is hashed like any other, and
  in a scan that returns either an earlier regular file already had that hash, and the
  file is in \<open>dupes\<close>, or none had, and the index holds the file's enumeration index under
  that hash.
\<close>

theorem decode_failure_raises_or_is_hashed:
  assumes "entries fs image_folder folders = xs @ (i, p) # ys"
    and "is_file fs p"
  shows "(cv2_imread dec fs p = Inl err \<longrightarrow>
            (\<exists>err'. scan dec md5 fs image_folder folders = Inl err') \<and>
            ((\<forall>e \<in> set xs. is_file fs (snd e) \<longrightarrow> \<not> refused dec fs (snd e)) \<longrightarrow>
               scan dec md5 fs image_folder folders = Inl err)) \<and>
         (scan dec md5 fs (image_folder_of cwd_parent) class_folders = Inl err' \<longrightarrow>
            remove_duplicate_images dec md5 cwd_parent fs =
              \<lparr>printed_total = None, raised = Some err', fs_after = fs\<rparr>) \<and>
         (cv2_imread dec fs p = Inr None \<longrightarrow> scan dec md5 fs image_folder folders = Inr st \<longrightarrow>
            (md5 None \<in> seen_hashes dec md5 fs xs \<longrightarrow>
               (\<exists>v. (i, str_nat v @ '': '' @ p) \<in> set (snd st))) \<and>
            (md5 None \<notin> seen_hashes dec md5 fs xs \<longrightarrow> fst st (md5 None) = Some i))"
proof (intro conjI impI)
  assume r: "cv2_imread dec fs p = Inl err"
  then have "refused dec fs p" by (simp add: refused_def)
  with assms have "\<not> (\<forall>q \<in> set (scanned_files fs image_folder folders). \<not> refused dec fs q)"
    by (force simp: scanned_files_def)
  then have "\<not> (\<exists>st. scan dec md5 fs image_folder folders = Inr st)"
    using scan_returns[of dec md5 fs image_folder folders] by blast
  then show "\<exists>err'. scan dec md5 fs image_folder folders = Inl err'"
    by (cases "scan dec md5 fs image_folder folders") auto
next
  assume r: "cv2_imread dec fs p = Inl err"
    and nr: "\<forall>e \<in> set xs. is_file fs (snd e) \<longrightarrow> \<not> refused dec fs (snd e)"
  from run_visit_raises[OF nr assms(2) r] assms(1)
  show "scan dec md5 fs image_folder folders = Inl err"
    by (simp add: scan_entries)
next
  assume "scan dec md5 fs (image_folder_of cwd_parent) class_folders = Inl err'"
  then show "remove_duplicate_images dec md5 cwd_parent fs =
      \<lparr>printed_total = None, raised = Some err', fs_after = fs\<rparr>"
    by (simp add: remove_duplicate_images_def)
next
  assume n: "cv2_imread dec fs p = Inr None"
    and st: "scan dec md5 fs image_folder folders = Inr st"
    and seen: "md5 None \<in> seen_hashes dec md5 fs xs"
  have fp: "fingerprint dec md5 fs p = Inr (md5 None)"
    using n by (simp add: fingerprint_def)
  from st assms(1) have run: "run_loop (visit dec md5 fs) (Map.empty, []) (xs @ (i, p) # ys) = Inr st"
    by (simp add: scan_entries)
  from seen have "md5 None \<in>
      dom (fst (Map.empty :: string \<rightharpoonup> nat, [] :: (nat \<times> string) list)) \<union> seen_hashes dec md5 fs xs"
    by simp
  from run_visit_marks[OF run assms(2) fp this]
  show "\<exists>v. (i, str_nat v @ '': '' @ p) \<in> set (snd st)" by blast
next
  assume n: "cv2_imread dec fs p = Inr None"
    and st: "scan dec md5 fs image_folder folders = Inr st"
    and nin: "md5 None \<notin> seen_hashes dec md5 fs xs"
  have fp: "fingerprint dec md5 fs p = Inr (md5 None)"
    using n by (simp add: fingerprint_def)
  from st assms(1) have "run_loop (visit dec md5 fs) (Map.empty, []) (xs @ (i, p) # ys) = Inr st"
    by (simp add: scan_entries)
  then obtain s1 where s1: "run_loop (visit dec md5 fs) (Map.empty, []) xs = Inr s1"
    and rest: "run_loop (visit dec md5 fs) s1 ((i, p) # ys) = Inr st"
    by (auto simp: run_loop_append split: sum.splits)
  from rest obtain s2 where s2: "visit dec md5 fs s1 (i, p) = Inr s2"
    and s3: "run_loop (visit dec md5 fs) s2 ys = Inr st"
    by (rule run_loop_Cons_Inr)
  have "dom (fst s1) = seen_hashes dec md5 fs xs"
    using run_visit_dom[OF s1] by simp
  with nin have "fst s1 (md5 None) = None" by auto
  then have "visit dec md5 fs s1 (i, p) = Inr ((fst s1)(md5 None \<mapsto> i), snd s1)"
    using visit_new[OF assms(2) fp, of "fst s1" "snd s1" i] by simp
  with s2 have "fst s2 (md5 None) = Some i" by auto
  with s3 show "fst st (md5 None) = Some i"
    by (rule run_visit_hash_keys_mono)
qed

text \<open>
  On \<open>ex_refused\<close> the third file is refused and the call ends with that exception,
  nothing printed, nothing unlinked; on \<open>ex_broken\<close> \<open>cv2.imread\<close> returns \<open>None\<close> for both
  files, the first is recorded under the hash of \<open>None\<close>, the second is marked as its
  duplicate.
\<close>

theorem decode_failure_raises_or_is_hashed_witness:
  "scan tag_decode demo_digest ex_refused (image_folder_of ''/w'') class_folders = Inl Cv2Error \<and>
   remove_duplicate_images tag_decode demo_digest ''/w'' ex_refused =
     \<lparr>printed_total = None, raised = Some Cv2Error, fs_after = ex_refused\<rparr> \<and>
   (\<exists>st. scan tag_decode demo_digest ex_broken (image_folder_of ''/w'') class_folders = Inr st \<and>
      fst st (demo_digest None) = Some 0 \<and>
      (\<exists>v. (1, str_nat v @ '': '' @ ''/w/data/brain_tumor_dataset/raw_images/no/b2.png'')
           \<in> set (snd st)))"
proof -
  let ?x = "''/w/data/brain_tumor_dataset/raw_images/no/x.png''"
  let ?y = "''/w/data/brain_tumor_dataset/raw_images/no/y.png''"
  let ?r = "''/w/data/brain_tumor_dataset/raw_images/no/r.png''"
  let ?b1 = "''/w/data/brain_tumor_dataset/raw_images/no/b1.png''"
  let ?b2 = "''/w/data/brain_tumor_dataset/raw_images/no/b2.png''"
  have er: "entries ex_refused (image_folder_of ''/w'') class_folders = [(0, ?x), (1, ?y)] @ (2, ?r) # []"
    by code_simp
  have fr: "is_file ex_refused ?r" by code_simp
  have dr: "cv2_imread tag_decode ex_refused ?r = Inl Cv2Error" by code_simp
  have nr: "\<forall>e \<in> set [(0, ?x), (1, ?y)]. is_file ex_refused (snd e) \<longrightarrow> \<not> refused tag_decode ex_refused (snd e)"
    by code_simp
  note R = decode_failure_raises_or_is_hashed[OF er fr, of tag_decode Cv2Error demo_digest "''/w''" Cv2Error]
  from R dr nr have sr: "scan tag_decode demo_digest ex_refused (image_folder_of ''/w'') class_folders = Inl Cv2Error"
    by blast
  with R have rr: "remove_duplicate_images tag_decode demo_digest ''/w'' ex_refused =
      \<lparr>printed_total = None, raised = Some Cv2Error, fs_after = ex_refused\<rparr>"
    by blast
  have e1: "entries ex_broken (image_folder_of ''/w'') class_folders = [] @ (0, ?b1) # [(1, ?b2)]"
    by code_simp
  have e2: "entries ex_broken (image_folder_of ''/w'') class_folders = [(0, ?b1)] @ (1, ?b2) # []"
    by code_simp
  have f1: "is_file ex_broken ?b1" and f2: "is_file ex_broken ?b2"
    by code_simp+
  have d1: "cv2_imread tag_decode ex_broken ?b1 = Inr None"
    and d2: "cv2_imread tag_decode ex_broken ?b2 = Inr None"
    by code_simp+
  have n1: "demo_digest None \<notin> seen_hashes tag_decode demo_digest ex_broken []"
    by code_simp
  have n2: "demo_digest None \<in> seen_hashes tag_decode demo_digest ex_broken [(0, ?b1)]"
    by code_simp
  have "\<forall>p \<in> set (scanned_files ex_broken (image_folder_of ''/w'') class_folders).
      \<not> refused tag_decode ex_broken p"
    by code_simp
  then obtain st where st: "scan tag_decode demo_digest ex_broken (image_folder_of ''/w'') class_folders = Inr st"
    using scan_returns[of tag_decode demo_digest ex_broken "image_folder_of ''/w''" class_folders]
    by blast
  from decode_failure_raises_or_is_hashed[OF e1 f1, of tag_decode Cv2Error demo_digest "''/w''" Cv2Error st]
    d1 st n1
  have a: "fst st (demo_digest None) = Some 0" by blast
  from decode_failure_raises_or_is_hashed[OF e2 f2, of tag_decode Cv2Error demo_digest "''/w''" Cv2Error st]
    d2 st n2
  have b: "\<exists>v. (1, str_nat v @ '': '' @ ?b2) \<in> set (snd st)" by blast
  from sr rr st a b show ?thesis by blast
qed

text \<open>
  The claim as the specification words it asks for an error for every file that fails to
  decode. On \<open>ex_broken\<close> both files are regular files for which \<open>cv2.imread\<close> returns
  \<open>None\<close>, the call raises nothing, prints 1 and has unlinked the second file.
\<close>

theorem undecodable_file_not_fatal:
  "is_file ex_broken ''/w/data/brain_tumor_dataset/raw_images/no/b1.png'' \<and>
   cv2_imread tag_decode ex_broken ''/w/data/brain_tumor_dataset/raw_images/no/b1.png'' = Inr None \<and>
   is_file ex_broken ''/w/data/brain_tumor_dataset/raw_images/no/b2.png'' \<and>
   cv2_imread tag_decode ex_broken ''/w/data/brain_tumor_dataset/raw_images/no/b2.png'' = Inr None \<and>
   raised (remove_duplicate_images tag_decode demo_digest ''/w'' ex_broken) = None \<and>
   printed_total (remove_duplicate_images tag_decode demo_digest ''/w'' ex_broken) = Some 1 \<and>
   nodes (fs_after (remove_duplicate_images tag_decode demo_digest ''/w'' ex_broken))
     ''/w/data/brain_tumor_dataset/raw_images/no/b2.png'' = None"
  by code_simp

subsection \<open>A folder that does not exist\<close>

text \<open>
  C3, as amended. A category folder that does not exist is scanned like an empty one:
  \<open>glob\<close> yields nothing for it, the body never runs, and the scan state after the folder
  is the state before it, as it is when the folder exists and is empty.
\<close>

theorem missing_folder_scans_as_empty:
  assumes "nodes fs (joinpath image_folder f) = None"
  shows "glob_star fs (joinpath image_folder f) = [] \<and>
         scan_folder dec md5 fs image_folder st f = Inr st \<and>
         scan_folder dec md5 (fs\<lparr>nodes := (nodes fs)(joinpath image_folder f \<mapsto> Dir [])\<rparr>)
           image_folder st f = Inr st"
  using assms by (simp add: scan_folder_def glob_star_def enumerate_eq_zip)

theorem missing_folder_scans_as_empty_witness:
  "glob_star ex_missing (joinpath (image_folder_of ''/w'') ''yes'') = [] \<and>
   scan_folder tag_decode demo_digest ex_missing (image_folder_of ''/w'') (Map.empty, []) ''yes'' =
     Inr (Map.empty, []) \<and>
   scan_folder tag_decode demo_digest
     (ex_missing\<lparr>nodes := (nodes ex_missing)(joinpath (image_folder_of ''/w'') ''yes'' \<mapsto> Dir [])\<rparr>)
     (image_folder_of ''/w'') (Map.empty, []) ''yes'' = Inr (Map.empty, [])"
proof -
  have h: "nodes ex_missing (joinpath (image_folder_of ''/w'') ''yes'') = None"
    by code_simp
  show ?thesis
    by (rule missing_folder_scans_as_empty[OF h])
qed

text \<open>
  The claim as the specification words it asks for an error. On \<open>ex_missing\<close> the folder
  \<open>yes\<close> does not exist and the call raises nothing and prints 0.
\<close>

theorem missing_folder_not_fatal:
  "nodes ex_missing (joinpath (image_folder_of ''/w'') ''yes'') = None \<and>
   raised (remove_duplicate_images tag_decode demo_digest ''/w'' ex_missing) = None \<and>
   printed_total (remove_duplicate_images tag_decode demo_digest ''/w'' ex_missing) = Some 0"
  by code_simp

subsection \<open>A second run\<close>

text \<open>
  C4. A second run on the file system a first run leaves behind reports zero duplicates
  and deletes nothing. The function does not do this when the duplicate's path contains
  \<open>": "\<close>. The first run on \<open>ex_colon\<close> ends without an exception and leaves both
  \<open>c.png\<close> and \<open>a: b.png\<close>; the second run finds the same duplicate again, prints 1 and
  then fails, since the cut path \<open>a\<close> was unlinked by the first run. Where no scanned
  path contains the separator the second run prints 0 and changes nothing
  (\<open>second_run_without_separator\<close>).
\<close>

theorem second_run_still_finds_duplicate:
  "raised (remove_duplicate_images tag_decode demo_digest ''/w'' ex_colon) = None \<and>
   printed_total (remove_duplicate_images tag_decode demo_digest ''/w''
     (fs_after (remove_duplicate_images tag_decode demo_digest ''/w'' ex_colon))) = Some 1 \<and>
   raised (remove_duplicate_images tag_decode demo_digest ''/w''
     (fs_after (remove_duplicate_images tag_decode demo_digest ''/w'' ex_colon))) =
     Some (FileNotFoundError ''/w/data/brain_tumor_dataset/raw_images/no/a'')"
  by code_simp

subsection \<open>Duplicates across the two folders\<close>

text \<open>
  C5. The index is shared by the folders: with one file in each folder and the same
  pixels in both, one pass leaves the file of the folder scanned first and reports 1. The
  sharing holds, the deletion does not when the second file's path contains \<open>": "\<close>. On
  \<open>ex_cross\<close> the file in \<open>yes\<close> is marked as a duplicate of the one in \<open>no\<close> and 1 is
  printed, but \<open>os.remove\<close> is called on the cut path, which does not exist: the call ends
  with \<open>FileNotFoundError\<close> and both files survive. With a path free of the separator
  the later file is unlinked, also across folders (\<open>dedup_without_separator_example\<close>).
\<close>

theorem cross_folder_colon_path_survives:
  "tag_decode [1, 7, 7] = tag_decode [2, 7, 7] \<and>
   printed_total (remove_duplicate_images tag_decode demo_digest ''/w'' ex_cross) = Some 1 \<and>
   raised (remove_duplicate_images tag_decode demo_digest ''/w'' ex_cross) =
     Some (FileNotFoundError ''/w/data/brain_tumor_dataset/raw_images/yes/a'') \<and>
   map (nodes (fs_after (remove_duplicate_images tag_decode demo_digest ''/w'' ex_cross)))
     [''/w/data/brain_tumor_dataset/raw_images/no/x.png'',
      ''/w/data/brain_tumor_dataset/raw_images/yes/a: b.png''] =
     [Some (File [1, 7, 7]), Some (File [2, 7, 7])]"
  by code_simp

subsection \<open>The fingerprint index\<close>

text \<open>
  C6, as amended. Within one run the index \<open>hash_keys\<close> starts empty and is append-only:
  a step of the iteration never changes or removes an entry. At the end of a scan it maps
  a fingerprint to the enumeration index, within its own folder's listing, of the first
  regular file visited with that fingerprint, and holds nothing else. A scan comes to its
  end when \<open>cv2.imread\<close> raises on none of the scanned files.
\<close>

theorem hash_keys_append_only_first_index:
  "(visit dec md5 fs st e = Inr st' \<longrightarrow> fst st h = Some v \<longrightarrow> fst st' h = Some v) \<and>
   (scan dec md5 fs image_folder folders = Inr final \<longrightarrow>
      fst final h =
        map_option fst
          (find (\<lambda>e. is_file fs (snd e) \<and> fingerprint dec md5 fs (snd e) = Inr h)
             (entries fs image_folder folders))) \<and>
   ((\<forall>p \<in> set (scanned_files fs image_folder folders). \<not> refused dec fs p) \<longrightarrow>
      (\<exists>final. scan dec md5 fs image_folder folders = Inr final))"
proof (intro conjI impI)
  assume "visit dec md5 fs st e = Inr st'" and "fst st h = Some v"
  then show "fst st' h = Some v"
    by (rule visit_hash_keys_mono)
next
  assume "scan dec md5 fs image_folder folders = Inr final"
  then have "run_loop (visit dec md5 fs) (Map.empty, []) (entries fs image_folder folders) = Inr final"
    by (simp add: scan_entries)
  from run_visit_hash_keys[OF this, of h]
  show "fst final h =
     map_option fst
       (find (\<lambda>e. is_file fs (snd e) \<and> fingerprint dec md5 fs (snd e) = Inr h)
          (entries fs image_folder folders))"
    by simp
next
  assume "\<forall>p \<in> set (scanned_files fs image_folder folders). \<not> refused dec fs p"
  then show "\<exists>final. scan dec md5 fs image_folder folders = Inr final"
    using scan_returns[of dec md5 fs image_folder folders] by blast
qed

text \<open>
  On \<open>ex_index\<close>: an index that holds 0 for \<open>.7\<close> still holds it after the file of
  folder \<open>yes\<close> is visited, and the scan stores 0 for \<open>.9\<close>, the index of that file in
  the listing of \<open>yes\<close>.
\<close>

theorem hash_keys_append_only_first_index_witness:
  "(\<exists>st'. visit tag_decode demo_digest ex_index ([''.7'' \<mapsto> 0], [])
             (0, ''/w/data/brain_tumor_dataset/raw_images/yes/b.png'') = Inr st' \<and>
          fst st' ''.7'' = Some 0) \<and>
   (\<exists>final. scan tag_decode demo_digest ex_index (image_folder_of ''/w'') class_folders = Inr final \<and>
          fst final ''.9'' = Some 0)"
proof -
  let ?b = "''/w/data/brain_tumor_dataset/raw_images/yes/b.png''"
  let ?st = "([''.7'' \<mapsto> 0 :: nat], [] :: (nat \<times> string) list)"
  have "\<not> refused tag_decode ex_index ?b" by code_simp
  then obtain st' where v: "visit tag_decode demo_digest ex_index ?st (0, ?b) = Inr st'"
    using run_visit_returns[of tag_decode demo_digest ex_index ?st "[(0, ?b)]"]
    by (auto split: sum.splits)
  have h: "fst ?st ''.7'' = Some 0"
    by simp
  have "\<forall>p \<in> set (scanned_files ex_index (image_folder_of ''/w'') class_folders).
      \<not> refused tag_decode ex_index p"
    by code_simp
  with hash_keys_append_only_first_index[of tag_decode demo_digest ex_index ?st "(0, ?b)" st'
      "''.7''" 0 "image_folder_of ''/w''" class_folders]
  obtain final where
    s: "scan tag_decode demo_digest ex_index (image_folder_of ''/w'') class_folders = Inr final"
    by blast
  have f: "map_option fst
       (find (\<lambda>e. is_file ex_index (snd e) \<and>
                  fingerprint tag_decode demo_digest ex_index (snd e) = Inr ''.9'')
          (entries ex_index (image_folder_of ''/w'') class_folders)) = Some 0"
    by code_simp
  from hash_keys_append_only_first_index[of tag_decode demo_digest ex_index ?st "(0, ?b)" st'
      "''.7''" 0 "image_folder_of ''/w''" class_folders final] v h
  have a: "fst st' ''.7'' = Some 0" by blast
  from hash_keys_append_only_first_index[of tag_decode demo_digest ex_index ?st "(0, ?b)" st'
      "''.9''" 0 "image_folder_of ''/w''" class_folders final] s f
  have b: "fst final ''.9'' = Some 0" by simp
  from v a s b show ?thesis by blast
qed

text \<open>
  The claim as the specification words it has the index map a fingerprint to the
  first-seen image path. On \<open>ex_index\<close> the two files have different fingerprints and
  different paths, and the index holds the same value 0 for both: the value is the
  position in the folder's listing, from which the path cannot be told.
\<close>

theorem index_value_is_not_a_path:
  "entries ex_index (image_folder_of ''/w'') class_folders =
     [(0, ''/w/data/brain_tumor_dataset/raw_images/no/a.png''),
      (0, ''/w/data/brain_tumor_dataset/raw_images/yes/b.png'')] \<and>
   fingerprint tag_decode demo_digest ex_index ''/w/data/brain_tumor_dataset/raw_images/no/a.png'' =
     Inr ''.7'' \<and>
   fingerprint tag_decode demo_digest ex_index ''/w/data/brain_tumor_dataset/raw_images/yes/b.png'' =
     Inr ''.9'' \<and>
   index_at (scan tag_decode demo_digest ex_index (image_folder_of ''/w'') class_folders) ''.7'' =
     Inr (Some 0) \<and>
   index_at (scan tag_decode demo_digest ex_index (image_folder_of ''/w'') class_folders) ''.9'' =
     Inr (Some 0)"
  by code_simp

subsection \<open>The fingerprint depends on the decoded pixels only\<close>



subsection \<open>Distinct pixels\<close>

text \<open>
  C8. When the files of a scan decode to pairwise distinct values and the digest does not
  collide on these values, no file is deleted: the call prints 0, raises nothing and
  leaves the file system as it was.
\<close>

theorem distinct_pixels_all_survive:
  assumes "map (cv2_imread dec fs) (scanned_files fs (image_folder_of cwd_parent) class_folders) =
             map Inr decoded"
    and "distinct decoded"
    and "inj_on md5 (set decoded)"
  shows "remove_duplicate_images dec md5 cwd_parent fs =
         \<lparr>printed_total = Some 0, raised = None, fs_after = fs\<rparr>"
proof -
  let ?files = "scanned_files fs (image_folder_of cwd_parent) class_folders"
  have fp: "map (fingerprint dec md5 fs) ?files = map (\<lambda>a. Inr (md5 a)) decoded"
  proof -
    have "map (fingerprint dec md5 fs) ?files =
        map (\<lambda>r. case r of Inl e \<Rightarrow> Inl e | Inr a \<Rightarrow> Inr (md5 a)) (map (cv2_imread dec fs) ?files)"
      by (simp add: fingerprint_def comp_def)
    also have "\<dots> = map (\<lambda>a. Inr (md5 a)) decoded"
      by (simp only: assms(1)) (simp add: comp_def)
    finally show ?thesis .
  qed
  have nr: "\<forall>p \<in> set ?files. \<not> refused dec fs p"
  proof
    fix p
    assume "p \<in> set ?files"
    then have "cv2_imread dec fs p \<in> set (map (cv2_imread dec fs) ?files)" by simp
    then have "cv2_imread dec fs p \<in> set (map Inr decoded)" by (simp only: assms(1))
    then show "\<not> refused dec fs p" by (auto simp: refused_def)
  qed
  have "distinct (map md5 decoded)"
    using assms(2,3) by (simp add: distinct_map)
  then have "distinct (map (\<lambda>a. Inr (md5 a) :: py_error + string) decoded)"
    by (simp add: distinct_map inj_on_def)
  then have "distinct (map (fingerprint dec md5 fs) ?files)"
    by (simp only: fp)
  with nr show ?thesis
    by (rule no_dupes_run)
qed

text \<open>On \<open>ex_index\<close> the two files decode to \<open>[7]\<close> and \<open>[9]\<close>.\<close>

theorem distinct_pixels_all_survive_witness:
  "map (cv2_imread tag_decode ex_index) (scanned_files ex_index (image_folder_of ''/w'') class_folders) =
     [Inr (Some [7]), Inr (Some [9])] \<and>
   remove_duplicate_images tag_decode demo_digest ''/w'' ex_index =
     \<lparr>printed_total = Some 0, raised = None, fs_after = ex_index\<rparr>"
proof -
  have m: "map (cv2_imread tag_decode ex_index)
      (scanned_files ex_index (image_folder_of ''/w'') class_folders) =
      map Inr [Some [7], Some [9]]"
    by code_simp
  have d: "distinct [Some [7], Some [9 :: nat]]"
    by simp
  have "demo_digest (Some [7]) \<noteq> demo_digest (Some [9])"
    by code_simp
  then have i: "inj_on demo_digest (set [Some [7], Some [9]])"
    by (auto simp: inj_on_def)
  from distinct_pixels_all_survive[OF m d i] m show ?thesis
    by simp
qed

subsection \<open>A deletion that fails\<close>

text \<open>
  C9. When the deletion loop reaches an element of \<open>dupes\<close> and \<open>os.remove\<close> fails on the
  path taken from it, the call ends with that error, the error names that path, and the
  file system is left as the loop had it at that point: the failure is not swallowed.
\<close>

theorem delete_failure_is_raised:
  assumes "scan dec md5 fs (image_folder_of cwd_parent) class_folders =
             Inr (hash_keys, pre @ (si, di) # post)"
    and "remove_loop fs pre = (None, fs1)"
    and "split_second di = Inr p"
    and "os_remove fs1 p = Inl e"
  shows "raised (remove_duplicate_images dec md5 cwd_parent fs) = Some e \<and>
         error_filename e = Some p \<and>
         fs_after (remove_duplicate_images dec md5 cwd_parent fs) = fs1"
proof -
  have "remove_loop fs (pre @ (si, di) # post) = (Some e, fs1)"
    using assms(2-4) by (simp add: remove_loop_append)
  with assms(1) os_remove_error_filename[OF assms(4)] show ?thesis
    by (simp add: remove_duplicate_images_def Let_def)
qed

text \<open>On \<open>ex_locked\<close> the duplicate \<open>y.png\<close> may not be unlinked.\<close>

theorem delete_failure_is_raised_witness:
  "raised (remove_duplicate_images tag_decode demo_digest ''/w'' ex_locked) =
     Some (PermissionError ''/w/data/brain_tumor_dataset/raw_images/no/y.png'') \<and>
   error_filename (PermissionError ''/w/data/brain_tumor_dataset/raw_images/no/y.png'') =
     Some ''/w/data/brain_tumor_dataset/raw_images/no/y.png'' \<and>
   fs_after (remove_duplicate_images tag_decode demo_digest ''/w'' ex_locked) = ex_locked"
proof -
  let ?y = "''/w/data/brain_tumor_dataset/raw_images/no/y.png''"
  have "dupes_of (scan tag_decode demo_digest ex_locked (image_folder_of ''/w'') class_folders) =
      Inr ([] @ (1, ''0: /w/data/brain_tumor_dataset/raw_images/no/y.png'') # [])"
    by code_simp
  then obtain hk where d: "scan tag_decode demo_digest ex_locked (image_folder_of ''/w'') class_folders =
      Inr (hk, [] @ (1, ''0: /w/data/brain_tumor_dataset/raw_images/no/y.png'') # [])"
    by (rule dupes_of_Inr)
  have l: "remove_loop ex_locked [] = (None, ex_locked)"
    by simp
  have t: "split_second ''0: /w/data/brain_tumor_dataset/raw_images/no/y.png'' = Inr ?y"
    by code_simp
  have "\<not> trailing_slash ?y"
    by code_simp
  then have r: "os_remove ex_locked ?y = Inl (PermissionError ?y)"
    by (simp add: os_remove_def ex_locked_def)
  show ?thesis
    by (rule delete_failure_is_raised[OF d l t r])
qed

subsection \<open>The path is taken back from the display string\<close>

text \<open>
  C10. A duplicate's path is kept only inside the display string
  \<open>"<index stored for its fingerprint>: <path>"\<close>, and the deletion loop calls \<open>os.remove\<close>
  on the second piece of that string split at \<open>": "\<close>. So for a path that does not
  contain \<open>": "\<close> the path handed to \<open>os.remove\<close> is the duplicate's path, and for a path
  that contains \<open>": "\<close> it is a proper prefix of it, a different path.
\<close>

theorem display_string_recovers_path:
  "(scan dec md5 fs image_folder folders = Inr st \<and> (i, s) \<in> set (snd st) \<longrightarrow>
      (\<exists>v p h. s = str_nat v @ '': '' @ p \<and> (i, p) \<in> set (entries fs image_folder folders) \<and>
             is_file fs p \<and> fingerprint dec md5 fs p = Inr h \<and> fst st h = Some v)) \<and>
   (split_second di = Inr q \<longrightarrow>
      remove_loop fs0 ((si, di) # ds) =
        (case os_remove fs0 q of Inl e \<Rightarrow> (Some e, fs0) | Inr fs' \<Rightarrow> remove_loop fs' ds)) \<and>
   (\<not> sublist '': '' path \<longrightarrow> split_second (str_nat n @ '': '' @ path) = Inr path) \<and>
   (sublist '': '' path \<longrightarrow>
      (\<exists>cut. split_second (str_nat n @ '': '' @ path) = Inr cut \<and> strict_prefix cut path))"
proof (intro conjI impI)
  assume a: "scan dec md5 fs image_folder folders = Inr st \<and> (i, s) \<in> set (snd st)"
  then have "run_loop (visit dec md5 fs) (Map.empty, []) (entries fs image_folder folders) = Inr st"
    by (simp add: scan_entries)
  from dupes_form_gen[OF this, of i s] a
  show "\<exists>v p h. s = str_nat v @ '': '' @ p \<and> (i, p) \<in> set (entries fs image_folder folders) \<and>
      is_file fs p \<and> fingerprint dec md5 fs p = Inr h \<and> fst st h = Some v"
    by simp
next
  assume "split_second di = Inr q"
  then show "remove_loop fs0 ((si, di) # ds) =
      (case os_remove fs0 q of Inl e \<Rightarrow> (Some e, fs0) | Inr fs' \<Rightarrow> remove_loop fs' ds)"
    by simp
next
  assume "\<not> sublist '': '' path"
  then show "split_second (str_nat n @ '': '' @ path) = Inr path"
    by (rule split_second_plain)
next
  assume "sublist '': '' path"
  then show "\<exists>cut. split_second (str_nat n @ '': '' @ path) = Inr cut \<and> strict_prefix cut path"
    by (rule split_second_truncated)
qed

text \<open>
  On \<open>ex_colon\<close>: the element of \<open>dupes\<close> for \<open>a: b.png\<close> is such a display string, the loop
  hands its second piece to \<open>os.remove\<close>, and that piece is cut short; for \<open>c.png\<close> the
  second piece would be the path itself.
\<close>

theorem display_string_recovers_path_witness:
  "(\<exists>st v p h. scan tag_decode demo_digest ex_colon (image_folder_of ''/w'') class_folders = Inr st \<and>
      ''0: /w/data/brain_tumor_dataset/raw_images/no/a: b.png'' = str_nat v @ '': '' @ p \<and>
      (1, p) \<in> set (entries ex_colon (image_folder_of ''/w'') class_folders) \<and>
      is_file ex_colon p \<and>
      fingerprint tag_decode demo_digest ex_colon p = Inr h \<and> fst st h = Some v) \<and>
   remove_loop ex_colon [(1, ''0: /w/data/brain_tumor_dataset/raw_images/no/a: b.png'')] =
     (case os_remove ex_colon ''/w/data/brain_tumor_dataset/raw_images/no/a'' of
        Inl e \<Rightarrow> (Some e, ex_colon) | Inr fs' \<Rightarrow> remove_loop fs' []) \<and>
   split_second (str_nat 0 @ '': '' @ ''/w/data/brain_tumor_dataset/raw_images/no/c.png'') =
     Inr ''/w/data/brain_tumor_dataset/raw_images/no/c.png'' \<and>
   (\<exists>cut. split_second (str_nat 0 @ '': '' @ ''/w/data/brain_tumor_dataset/raw_images/no/a: b.png'') =
       Inr cut \<and>
     strict_prefix cut ''/w/data/brain_tumor_dataset/raw_images/no/a: b.png'')"
proof -
  let ?di = "''0: /w/data/brain_tumor_dataset/raw_images/no/a: b.png''"
  let ?c = "''/w/data/brain_tumor_dataset/raw_images/no/c.png''"
  let ?ab = "''/w/data/brain_tumor_dataset/raw_images/no/a: b.png''"
  let ?a = "''/w/data/brain_tumor_dataset/raw_images/no/a''"
  have "dupes_of (scan tag_decode demo_digest ex_colon (image_folder_of ''/w'') class_folders) =
      Inr [(1, ?di)]"
    by code_simp
  then obtain hk where s: "scan tag_decode demo_digest ex_colon (image_folder_of ''/w'') class_folders =
      Inr (hk, [(1, ?di)])"
    by (rule dupes_of_Inr)
  then have m: "scan tag_decode demo_digest ex_colon (image_folder_of ''/w'') class_folders =
      Inr (hk, [(1, ?di)]) \<and> (1, ?di) \<in> set (snd (hk, [(1, ?di)]))"
    by simp
  have t: "split_second ?di = Inr ?a"
    by code_simp
  have plain: "\<not> sublist '': '' ?c"
    by code_simp
  have colon: "sublist '': '' ?ab"
    by code_simp
  from display_string_recovers_path[of tag_decode demo_digest ex_colon
      "image_folder_of ''/w''" class_folders "(hk, [(1, ?di)])" 1 ?di ?di ?a ex_colon 1 "[]" ?c 0]
    display_string_recovers_path[of tag_decode demo_digest ex_colon
      "image_folder_of ''/w''" class_folders "(hk, [(1, ?di)])" 1 ?di ?di ?a ex_colon 1 "[]" ?ab 0]
    m t plain colon
  show ?thesis by blast
qed

end
